theory Spec2Isabelle
  imports Main "HOL-Library.Word" "HOL-Library.FSet"
begin

section \<open>Built-in string methods (StringMethods.cpp)\<close>

subsection \<open>The C and C++ library functions the methods call\<close>

text \<open>
  The source strings are \<^verbatim>\<open>std::string\<close>: byte strings, here \<^typ>\<open>string\<close>.
  A \<^verbatim>\<open>char\<close> read through \<^verbatim>\<open>c_str()\<close> is converted to \<^verbatim>\<open>int\<close> as a signed
  byte (the x86-64 ABI), so a byte from 0x80 on reaches \<^verbatim>\<open>std::tolower\<close> as a negative
  number. \<^verbatim>\<open>std::tolower\<close> is the one of the C library in the "C" locale, a table
  indexed from -128 to 255: it folds \<^verbatim>\<open>A\<close> to \<^verbatim>\<open>Z\<close>, returns the unsigned value of a
  byte given as a negative number (-128 to -2 give 128 to 254), and leaves every
  other argument, \<^verbatim>\<open>EOF\<close> (-1) among them, as it is.
\<close>

definition c_char :: "char \<Rightarrow> int" where
  "c_char c = (let n = int (of_char c) in if n < 128 then n else n - 256)"

definition c_tolower :: "int \<Rightarrow> int" where
  "c_tolower c =
     (if 65 \<le> c \<and> c \<le> 90 then c + 32
      else if - 128 \<le> c \<and> c < - 1 then c + 256
      else c)"

text \<open>\<^verbatim>\<open>*p\<close> for a pointer into a NUL-terminated buffer: the terminator reads as 0.\<close>

fun deref :: "string \<Rightarrow> int" where
  "deref [] = 0"
| "deref (c # cs) = c_char c"

text \<open>
  \<^verbatim>\<open>std::string::compare\<close>: the bytes are compared as unsigned values over the common
  length, then the lengths decide. The standard fixes only the sign of the result;
  the value below is the byte difference, resp. the length difference.
\<close>

fun std_string_compare :: "string \<Rightarrow> string \<Rightarrow> int" where
  "std_string_compare [] [] = 0"
| "std_string_compare [] (y # ys) = - int (length (y # ys))"
| "std_string_compare (x # xs) [] = int (length (x # xs))"
| "std_string_compare (x # xs) (y # ys) =
     (if x = y then std_string_compare xs ys
      else int (of_char x) - int (of_char y))"









subsection \<open>StringCompareMethod::eval\<close>

text \<open>
  The loop of the case-insensitive branch: \<open>p1\<close> and \<open>p2\<close> walk the two buffers; the
  value of the assignment \<^verbatim>\<open>result = tolower(*p1) - tolower(*p2++)\<close> ends the loop when
  it is not 0, and the terminator of the left string ends it otherwise.
\<close>

fun icompare_loop :: "string \<Rightarrow> string \<Rightarrow> int" where
  "icompare_loop [] p2 = c_tolower 0 - c_tolower (deref p2)"
| "icompare_loop (c # p1) p2 =
     (let result = c_tolower (c_char c) - c_tolower (deref p2)
      in if result = 0 then (if c_char c = 0 then result else icompare_loop p1 (tl p2))
         else result)"

definition compare_result :: "bool \<Rightarrow> string \<Rightarrow> string \<Rightarrow> int" where
  "compare_result ignoreCase lhs rhs =
     (if ignoreCase then icompare_loop lhs rhs
      else (let result = std_string_compare lhs rhs
            in if result < 0 then -1 else if result > 0 then 1 else result))"

text \<open>
  An argument that failed to evaluate is \<open>None\<close>, and so is the result then. The
  result is \<^verbatim>\<open>SVInt(32, uint64_t(result), true)\<close>: the low 32 bits, read signed.
\<close>

definition StringCompareMethod_eval ::
  "bool \<Rightarrow> string option \<Rightarrow> string option \<Rightarrow> 32 word option" where
  "StringCompareMethod_eval ignoreCase lhsCv rhsCv =
     (case (lhsCv, rhsCv) of
        (Some lhs, Some rhs) \<Rightarrow> Some (of_int (compare_result ignoreCase lhs rhs))
      | _ \<Rightarrow> None)"

subsection \<open>StringAtoIMethod::eval\<close>




section \<open>The symbol tree visited by the elaboration visitors (ElabVisitors.h)\<close>

subsection \<open>Lazily evaluated members\<close>

text \<open>
  Pointers of the source are identifiers: a \<^verbatim>\<open>const Definition*\<close>, a
  \<^verbatim>\<open>const InstanceBodySymbol*\<close>, a \<^verbatim>\<open>const GenericClassDefSymbol*\<close> and the
  \<^verbatim>\<open>const Type*\<close> of a class specialization.
\<close>

type_synonym def_id = nat
type_synonym body_id = nat
type_synonym class_id = nat
type_synonym spec_id = nat

datatype diag_arg = ArgString string | ArgNumber nat

datatype diag_code =
    InfinitelyRecursiveHierarchy
  | MaxInstanceDepthExceeded
  | CollaboratorDiag nat

datatype diagnostic = Diagnostic (d_code: diag_code) (d_location: nat) (d_args: "diag_arg list")

text \<open>
  A diagnostic issued by a collaborator (type checking, name resolution, constant
  evaluation): whether it is an error, its code and its location.
\<close>

datatype collab_diag = CollabDiag (cd_error: bool) (cd_code: nat) (cd_location: nat)

text \<open>
  Modelled from the spec: the getters the visitor calls (\<^verbatim>\<open>getType\<close>,
  \<^verbatim>\<open>getInitializer\<close>, \<^verbatim>\<open>getValue\<close>, \<^verbatim>\<open>getExpression\<close>, ...) are not part of
  ElabVisitors.h. Each is a memoizing cell: the first request resolves it, which
  may issue diagnostics and may create specializations of generic classes; later
  requests return the stored result. A cell is given by its identity, the
  diagnostics its resolution issues and the specializations it creates.
\<close>

record lazy =
  cell :: nat
  emits :: "collab_diag list"
  creates :: "(class_id \<times> spec_id) list"

text \<open>One port connection of an instance, with the members the visitor touches.\<close>

record port_conn =
  getExpression :: lazy
  checkSimulatedNetTypes :: lazy
  conn_attributes :: "lazy list"

text \<open>
  What \<^verbatim>\<open>getConnection()\<close> and \<^verbatim>\<open>body.find(name)\<close> return: a symbol of kind Instance
  (with its body), of kind Modport, or of another kind.
\<close>

datatype sym_ref = InstanceRef body_id | ModportRef nat | OtherRef nat

subsection \<open>Symbol kinds\<close>

text \<open>
  The symbol types whose \<^verbatim>\<open>handle\<close> in DiagnosticVisitor is \<^verbatim>\<open>handleDefault\<close>
  followed by requests on the symbol itself, each with the members that handler
  requests. \<open>OtherSymbolK\<close> is any Symbol type served by the \<^verbatim>\<open>handle\<close> template
  alone; \<open>NonSymbolK\<close> is a visited node that is not a Symbol (a statement).
\<close>

datatype plain_kind =
    ParameterK lazy
  | EnumValueK lazy
  | SpecparamK lazy lazy
  | ExplicitImportK lazy
  | WildcardImportK lazy
  | InterfacePortK lazy "def_id option" string lazy "sym_ref option"
  | PortK lazy lazy
  | MultiPortK lazy
  | ContinuousAssignK lazy lazy
  | ElabSystemTaskK lazy
  | GenericClassDefK class_id
  | NetTypeK lazy lazy
  | ClassTypeK lazy
  | CovergroupTypeK lazy "lazy list"
  | CoverpointK lazy "lazy list"
  | CoverCrossK lazy "lazy list"
  | CoverageBinK lazy
  | NetK lazy lazy
  | ConstraintBlockK lazy
  | UnknownModuleK lazy
  | PrimitiveInstanceK lazy lazy
  | ClockingBlockK lazy lazy lazy
  | SubroutineK bool
  | SequenceK lazy
  | PropertyK lazy
  | LetDeclK lazy
  | RandSeqProductionK lazy
  | TimingPathK lazy
  | PulseStyleK lazy
  | SystemTimingCheckK lazy
  | OtherSymbolK
  | NonSymbolK

text \<open>
  \<open>InstanceK def body getPortConnections conns\<close>: the definition and the body the
  instance refers to and its port connections. \<open>GenerateBlockK isInstantiated\<close>.
  \<open>MethodPrototypeK getSubroutine interfaceExtern\<close>. \<open>DefParamK getTarget getValue\<close>.
\<close>

datatype kind =
    InstanceK def_id body_id lazy "port_conn list"
  | GenerateBlockK bool
  | GenerateBlockArrayK
  | DefParamK lazy lazy
  | MethodPrototypeK lazy bool
  | RootK
  | CompilationUnitK
  | PlainK plain_kind

record sym_info =
  sym_id :: nat
  sym_name :: string
  sym_location :: nat
  declaredType :: "(lazy \<times> lazy) option"
  attributes :: "lazy list"

text \<open>
  A node: its kind, its common members, the result of \<^verbatim>\<open>getBody()\<close> where the type
  has one (the getter, \<^verbatim>\<open>bad()\<close> and the body node), the subroutine of a method
  prototype (\<^verbatim>\<open>getSubroutine()\<close>, may be null) and the members \<^verbatim>\<open>visitDefault\<close>
  visits.
\<close>

datatype symbol =
  Symbol kind sym_info "(lazy \<times> bool \<times> symbol) option" "symbol option" "symbol list"

text \<open>
  The part of the compilation the visitors read and never write: the options, the
  instance bodies (an instance refers to its body by identity, and several
  instances, also nested ones, may refer to the same body), the class types of the
  specializations, the invalid specialization of each generic class, the kind
  string of a definition and the lookup of a name in a body.
\<close>

record compilation =
  opt_maxInstanceDepth :: nat
  bodies :: "body_id \<Rightarrow> symbol"
  classTypes :: "spec_id \<Rightarrow> symbol"
  getInvalidSpecialization :: "class_id \<Rightarrow> symbol"
  getKindString :: "def_id \<Rightarrow> string"
  body_find :: "body_id \<Rightarrow> string \<Rightarrow> sym_ref option"


section \<open>DiagnosticVisitor\<close>

subsection \<open>State\<close>

text \<open>
  Where control reached in \<^verbatim>\<open>handle(const InstanceSymbol&)\<close>, for a definition: the
  body was visited (\<open>Entered\<close>), or the instance was rejected for recursion or depth.
\<close>

datatype entry_event = Entered def_id | Rejected def_id

text \<open>
  The members of the struct, and behind its two references the state of the
  compilation its calls change: the count of errors \<open>numErrors\<close>, the diagnostics
  issued so far, the cells resolved so far and the specializations each generic
  class has. \<open>entries\<close> is not a member: it is a log of the instance entries, kept to
  state what the counters count; nothing reads it.
\<close>

record DiagnosticVisitor =
  numErrors :: nat
  errorLimit :: nat
  diags :: "diagnostic list"
  resolved :: "nat set"
  specializations :: "class_id \<Rightarrow> spec_id list"
  hierarchyProblem :: bool
  instanceCount :: "def_id \<Rightarrow> nat"
  activeInstanceBodies :: "body_id fset"
  usedIfacePorts :: "def_id set"
  genericClasses :: "class_id list"
  dpiImports :: "nat list"
  externIfaceProtos :: "nat list"
  modportsWithExports :: "(nat \<times> nat) list"
  timingPathMap :: "nat list"
  entries :: "entry_event list"

subsection \<open>The compilation's side: diagnostics and lazy members\<close>

text \<open>
  Modelled from the spec: \<^verbatim>\<open>addDiag\<close> appends to the diagnostic sink, and the count
  the visitor reads through \<open>numErrors\<close> grows by one for a diagnostic that is an
  error.
\<close>

definition addDiag :: "diagnostic \<Rightarrow> bool \<Rightarrow> DiagnosticVisitor \<Rightarrow> DiagnosticVisitor" where
  "addDiag d isError v =
     v\<lparr>diags := diags v @ [d],
       numErrors := (if isError then numErrors v + 1 else numErrors v)\<rparr>"

fun issue :: "collab_diag list \<Rightarrow> DiagnosticVisitor \<Rightarrow> DiagnosticVisitor" where
  "issue [] v = v"
| "issue (c # cs) v =
     issue cs (addDiag (Diagnostic (CollaboratorDiag (cd_code c)) (cd_location c) []) (cd_error c) v)"

fun specialize :: "(class_id \<times> spec_id) list \<Rightarrow> DiagnosticVisitor \<Rightarrow> DiagnosticVisitor" where
  "specialize [] v = v"
| "specialize ((g, sp) # rs) v =
     specialize rs
       (if sp \<in> set (specializations v g) then v
        else v\<lparr>specializations := (specializations v)(g := specializations v g @ [sp])\<rparr>)"

definition force :: "lazy \<Rightarrow> DiagnosticVisitor \<Rightarrow> DiagnosticVisitor" where
  "force l v =
     (if cell l \<in> resolved v then v
      else specialize (creates l) (issue (emits l) (v\<lparr>resolved := insert (cell l) (resolved v)\<rparr>)))"

fun forceAll :: "lazy list \<Rightarrow> DiagnosticVisitor \<Rightarrow> DiagnosticVisitor" where
  "forceAll [] v = v"
| "forceAll (l # ls) v = forceAll ls (force l v)"

subsection \<open>The handlers\<close>

definition shortCircuit :: "DiagnosticVisitor \<Rightarrow> bool" where
  "shortCircuit v = (numErrors v > errorLimit v \<or> hierarchyProblem v)"

text \<open>The first part of \<^verbatim>\<open>handleDefault\<close>, for a type derived from Symbol.\<close>

fun is_Symbol :: "kind \<Rightarrow> bool" where
  "is_Symbol (PlainK NonSymbolK) = False"
| "is_Symbol k = True"

fun forceDeclaredType :: "(lazy \<times> lazy) option \<Rightarrow> DiagnosticVisitor \<Rightarrow> DiagnosticVisitor" where
  "forceDeclaredType None v = v"
| "forceDeclaredType (Some (getType, getInitializer)) v = force getInitializer (force getType v)"

fun forceValue :: "kind \<Rightarrow> DiagnosticVisitor \<Rightarrow> DiagnosticVisitor" where
  "forceValue (PlainK (ParameterK getValue)) v = force getValue v"
| "forceValue (PlainK (EnumValueK getValue)) v = force getValue v"
| "forceValue (PlainK (SpecparamK getValue getPathSource)) v = force getValue v"
| "forceValue k v = v"

definition forceSymbol :: "kind \<Rightarrow> sym_info \<Rightarrow> DiagnosticVisitor \<Rightarrow> DiagnosticVisitor" where
  "forceSymbol k info v =
     (if is_Symbol k
      then forceAll (attributes info) (forceValue k (forceDeclaredType (declaredType info) v))
      else v)"

text \<open>The loop over the port connections in \<^verbatim>\<open>handle(const InstanceSymbol&)\<close>.\<close>

fun forceConns :: "port_conn list \<Rightarrow> DiagnosticVisitor \<Rightarrow> DiagnosticVisitor" where
  "forceConns [] v = v"
| "forceConns (conn # conns) v =
     forceConns conns
       (forceAll (conn_attributes conn)
          (force (checkSimulatedNetTypes conn) (force (getExpression conn) v)))"

text \<open>
  What each specific handler does after \<^verbatim>\<open>handleDefault\<close> returned true. For the
  timing paths, modelled from the spec: the path registers itself in the shared
  timing path map, and the check may issue diagnostics.
\<close>

fun handleSpecific ::
  "compilation \<Rightarrow> plain_kind \<Rightarrow> sym_info \<Rightarrow> DiagnosticVisitor \<Rightarrow> DiagnosticVisitor" where
  "handleSpecific C (ParameterK getValue) info v = v"
| "handleSpecific C (EnumValueK getValue) info v = v"
| "handleSpecific C (SpecparamK getValue getPathSource) info v = force getPathSource v"
| "handleSpecific C (ExplicitImportK importedSymbol) info v = force importedSymbol v"
| "handleSpecific C (WildcardImportK getPackage) info v = force getPackage v"
| "handleSpecific C (InterfacePortK getDeclaredRange interfaceDef modport getConnection conn) info v =
     (let v1 = force getDeclaredRange v in
      case interfaceDef of
        None \<Rightarrow> v1
      | Some d \<Rightarrow>
          (let v2 = v1\<lparr>usedIfacePorts := insert d (usedIfacePorts v1)\<rparr> in
           if modport = [] then v2
           else (let v3 = force getConnection v2;
                     conn' = (case conn of
                                Some (InstanceRef b) \<Rightarrow> body_find C b modport
                              | c \<Rightarrow> c)
                 in case conn' of
                      Some (ModportRef m) \<Rightarrow>
                        v3\<lparr>modportsWithExports := modportsWithExports v3 @ [(sym_id info, m)]\<rparr>
                    | _ \<Rightarrow> v3)))"
| "handleSpecific C (PortK getType getInitializer) info v = force getInitializer (force getType v)"
| "handleSpecific C (MultiPortK getType) info v = force getType v"
| "handleSpecific C (ContinuousAssignK getAssignment getDelay) info v =
     force getDelay (force getAssignment v)"
| "handleSpecific C (ElabSystemTaskK issueDiagnostic) info v = force issueDiagnostic v"
| "handleSpecific C (GenericClassDefK g) info v = v\<lparr>genericClasses := genericClasses v @ [g]\<rparr>"
| "handleSpecific C (NetTypeK getDataType getResolutionFunction) info v =
     force getResolutionFunction (force getDataType v)"
| "handleSpecific C (ClassTypeK getBaseConstructorCall) info v = force getBaseConstructorCall v"
| "handleSpecific C (CovergroupTypeK getCoverageEvent options) info v =
     forceAll options (force getCoverageEvent v)"
| "handleSpecific C (CoverpointK getIffExpr options) info v = forceAll options (force getIffExpr v)"
| "handleSpecific C (CoverCrossK getIffExpr options) info v = forceAll options (force getIffExpr v)"
| "handleSpecific C (CoverageBinK getValues) info v = force getValues v"
| "handleSpecific C (NetK getDelay checkInitializer) info v = force checkInitializer (force getDelay v)"
| "handleSpecific C (ConstraintBlockK getConstraints) info v = force getConstraints v"
| "handleSpecific C (UnknownModuleK getPortConnections) info v = force getPortConnections v"
| "handleSpecific C (PrimitiveInstanceK getPortConnections getDelay) info v =
     force getDelay (force getPortConnections v)"
| "handleSpecific C (ClockingBlockK getEvent getDefaultInputSkew getDefaultOutputSkew) info v =
     force getDefaultOutputSkew (force getDefaultInputSkew (force getEvent v))"
| "handleSpecific C (SubroutineK dpiImport) info v =
     (if dpiImport then v\<lparr>dpiImports := dpiImports v @ [sym_id info]\<rparr> else v)"
| "handleSpecific C (SequenceK makeDefaultInstance) info v = force makeDefaultInstance v"
| "handleSpecific C (PropertyK makeDefaultInstance) info v = force makeDefaultInstance v"
| "handleSpecific C (LetDeclK makeDefaultInstance) info v = force makeDefaultInstance v"
| "handleSpecific C (RandSeqProductionK getRules) info v = force getRules v"
| "handleSpecific C (TimingPathK checkDuplicatePaths) info v =
     force checkDuplicatePaths (v\<lparr>timingPathMap := timingPathMap v @ [sym_id info]\<rparr>)"
| "handleSpecific C (PulseStyleK checkPreviouslyUsed) info v = force checkPreviouslyUsed v"
| "handleSpecific C (SystemTimingCheckK getArguments) info v = force getArguments v"
| "handleSpecific C OtherSymbolK info v = v"
| "handleSpecific C NonSymbolK info v = v"

text \<open>The two rejections of \<^verbatim>\<open>handle(const InstanceSymbol&)\<close> and the scope guard.\<close>

definition rejectRecursive ::
  "def_id \<Rightarrow> sym_info \<Rightarrow> DiagnosticVisitor \<Rightarrow> DiagnosticVisitor" where
  "rejectRecursive d info v =
     (addDiag (Diagnostic InfinitelyRecursiveHierarchy (sym_location info) [ArgString (sym_name info)])
        True v)
     \<lparr>hierarchyProblem := True, entries := entries v @ [Rejected d]\<rparr>"

definition rejectDepth ::
  "compilation \<Rightarrow> def_id \<Rightarrow> sym_info \<Rightarrow> DiagnosticVisitor \<Rightarrow> DiagnosticVisitor" where
  "rejectDepth C d info v =
     (addDiag (Diagnostic MaxInstanceDepthExceeded (sym_location info)
                 [ArgString (getKindString C d), ArgNumber (opt_maxInstanceDepth C)])
        True v)
     \<lparr>hierarchyProblem := True, entries := entries v @ [Rejected d]\<rparr>"

definition guard_erase :: "body_id \<Rightarrow> DiagnosticVisitor \<Rightarrow> DiagnosticVisitor" where
  "guard_erase b v = v\<lparr>activeInstanceBodies := activeInstanceBodies v |-| {|b|}\<rparr>"

text \<open>
  The work of the instance handler before the recursion check: the count of the
  definition, the attributes, the port connections.
\<close>

definition instancePrologue ::
  "def_id \<Rightarrow> lazy \<Rightarrow> port_conn list \<Rightarrow> sym_info \<Rightarrow> DiagnosticVisitor \<Rightarrow> DiagnosticVisitor" where
  "instancePrologue d getPortConnections conns info v =
     forceConns conns
       (force getPortConnections
          (forceAll (attributes info)
             (v\<lparr>instanceCount := (instanceCount v)(d := instanceCount v d + 1)\<rparr>)))"

text \<open>
  The traversal. \<open>fuel\<close> bounds the number of nested steps from an instance to its
  body (\<^verbatim>\<open>visit(symbol.body)\<close>) and from a specialization to its class type; \<open>None\<close>
  is a traversal that has not returned within it. \<open>handle\<close> is the overload set,
  chosen by the kind of the node; \<open>visitMembers\<close> is the loop of \<^verbatim>\<open>visitDefault\<close>.
\<close>

function (sequential) handle :: "nat \<Rightarrow> compilation \<Rightarrow> symbol \<Rightarrow> DiagnosticVisitor \<Rightarrow> DiagnosticVisitor option"
and handleDefault ::
  "nat \<Rightarrow> compilation \<Rightarrow> symbol \<Rightarrow> DiagnosticVisitor \<Rightarrow> (bool \<times> DiagnosticVisitor) option"
and visitMembers ::
  "nat \<Rightarrow> compilation \<Rightarrow> symbol list \<Rightarrow> DiagnosticVisitor \<Rightarrow> DiagnosticVisitor option"
where
  "handle fuel C (Symbol (InstanceK d b getPortConnections conns) info bd sub ms) v =
     (if shortCircuit v then Some v
      else
        (let v1 = instancePrologue d getPortConnections conns info v in
         if b |\<in>| activeInstanceBodies v1 then Some (rejectRecursive d info v1)
         else
           (let v2 = v1\<lparr>activeInstanceBodies := finsert b (activeInstanceBodies v1)\<rparr> in
            if fcard (activeInstanceBodies v2) > opt_maxInstanceDepth C
            then Some (guard_erase b (rejectDepth C d info v2))
            else
              (case fuel of
                 0 \<Rightarrow> None
               | Suc n \<Rightarrow>
                   map_option (guard_erase b)
                     (handle n C (bodies C b) (v2\<lparr>entries := entries v2 @ [Entered d]\<rparr>))))))"
| "handle fuel C (Symbol (GenerateBlockK isInstantiated) info bd sub ms) v =
     (if \<not> isInstantiated then Some v
      else map_option snd
             (handleDefault fuel C (Symbol (GenerateBlockK isInstantiated) info bd sub ms) v))"
| "handle fuel C (Symbol (MethodPrototypeK getSubroutine interfaceExtern) info bd sub ms) v =
     (case handleDefault fuel C (Symbol (MethodPrototypeK getSubroutine interfaceExtern) info bd sub ms) v of
        None \<Rightarrow> None
      | Some (False, v1) \<Rightarrow> Some v1
      | Some (True, v1) \<Rightarrow>
          (case (case sub of
                   None \<Rightarrow> Some (force getSubroutine v1)
                 | Some s \<Rightarrow> handle fuel C s (force getSubroutine v1)) of
             None \<Rightarrow> None
           | Some v2 \<Rightarrow>
               Some (if interfaceExtern
                     then v2\<lparr>externIfaceProtos := externIfaceProtos v2 @ [sym_id info]\<rparr>
                     else v2)))"
| "handle fuel C (Symbol (DefParamK getTarget getValue) info bd sub ms) v =
     (case handleDefault fuel C (Symbol (DefParamK getTarget getValue) info bd sub ms) v of
        None \<Rightarrow> None
      | Some (False, v1) \<Rightarrow> Some v1
      | Some (True, v1) \<Rightarrow> Some (force getValue (force getTarget v1)))"
| "handle fuel C (Symbol (PlainK pk) info bd sub ms) v =
     (case handleDefault fuel C (Symbol (PlainK pk) info bd sub ms) v of
        None \<Rightarrow> None
      | Some (False, v1) \<Rightarrow> Some v1
      | Some (True, v1) \<Rightarrow> Some (handleSpecific C pk info v1))"
| "handle fuel C (Symbol GenerateBlockArrayK info bd sub ms) v =
     map_option snd (handleDefault fuel C (Symbol GenerateBlockArrayK info bd sub ms) v)"
| "handle fuel C (Symbol RootK info bd sub ms) v =
     map_option snd (handleDefault fuel C (Symbol RootK info bd sub ms) v)"
| "handle fuel C (Symbol CompilationUnitK info bd sub ms) v =
     map_option snd (handleDefault fuel C (Symbol CompilationUnitK info bd sub ms) v)"
| "handleDefault fuel C (Symbol k info bd sub ms) v =
     (if shortCircuit v then Some (False, v)
      else
        (let v1 = forceSymbol k info v in
         case bd of
           None \<Rightarrow> map_option (Pair True) (visitMembers fuel C ms v1)
         | Some (getBody, bad, body) \<Rightarrow>
             (let v2 = force getBody v1 in
              if bad then Some (True, v2)
              else (case handle fuel C body v2 of
                      None \<Rightarrow> None
                    | Some v3 \<Rightarrow> map_option (Pair True) (visitMembers fuel C ms v3)))))"
| "visitMembers fuel C [] v = Some v"
| "visitMembers fuel C (m # ms) v =
     (case handle fuel C m v of
        None \<Rightarrow> None
      | Some v1 \<Rightarrow> visitMembers fuel C ms v1)"
  by pat_completeness auto

termination
  by (relation "inv_image (less_than <*lex*> less_than <*lex*> less_than)
       (\<lambda>x. case x of
          Inl (fuel, C, s, v) \<Rightarrow> (fuel, size s, Suc 0)
        | Inr (Inl (fuel, C, s, v)) \<Rightarrow> (fuel, size s, 0)
        | Inr (Inr (fuel, C, ms, v)) \<Rightarrow> (fuel, size_list size ms, 0))") auto


subsection \<open>finalize\<close>

text \<open>The loop over \<^verbatim>\<open>symbol->specializations()\<close> that fills \<open>toVisit\<close>.\<close>

fun collectSpecs :: "spec_id list \<Rightarrow> spec_id set \<times> spec_id list \<Rightarrow> spec_id set \<times> spec_id list" where
  "collectSpecs [] (visitedSpecs, toVisit) = (visitedSpecs, toVisit)"
| "collectSpecs (spec # specs) (visitedSpecs, toVisit) =
     (if spec \<in> visitedSpecs then collectSpecs specs (visitedSpecs, toVisit)
      else collectSpecs specs (insert spec visitedSpecs, toVisit @ [spec]))"

text \<open>The loop over \<open>toVisit\<close>: \<^verbatim>\<open>spec->visit(*this)\<close> on the class type of \<open>spec\<close>.\<close>

fun visitSpecs :: "nat \<Rightarrow> compilation \<Rightarrow> spec_id list \<Rightarrow> DiagnosticVisitor \<Rightarrow> DiagnosticVisitor option" where
  "visitSpecs fuel C [] v = Some v"
| "visitSpecs fuel C (spec # specs) v =
     (case handle fuel C (classTypes C spec) v of
        None \<Rightarrow> None
      | Some v1 \<Rightarrow> visitSpecs fuel C specs v1)"

text \<open>
  One pass of the \<^verbatim>\<open>do\<close> loop over the generic classes. The range-based \<^verbatim>\<open>for\<close>
  reads the bounds of \<open>genericClasses\<close> once: the pass runs over the classes
  collected when it starts, and a class collected during a visit is seen by the
  next pass. \<open>toVisit\<close> is empty at the start of each iteration.
\<close>

fun finalizePass ::
  "nat \<Rightarrow> compilation \<Rightarrow> class_id list \<Rightarrow> DiagnosticVisitor \<times> spec_id set \<times> bool \<Rightarrow>
   (DiagnosticVisitor \<times> spec_id set \<times> bool) option" where
  "finalizePass fuel C [] (v, visitedSpecs, didSomething) = Some (v, visitedSpecs, didSomething)"
| "finalizePass fuel C (g # gs) (v, visitedSpecs, didSomething) =
     (case collectSpecs (specializations v g) (visitedSpecs, []) of
        (visitedSpecs', toVisit) \<Rightarrow>
          (case visitSpecs fuel C toVisit v of
             None \<Rightarrow> None
           | Some v' \<Rightarrow> finalizePass fuel C gs (v', visitedSpecs', didSomething \<or> toVisit \<noteq> [])))"

text \<open>
  The \<^verbatim>\<open>do ... while (didSomething)\<close> loop; \<open>passes\<close> bounds the number of its
  iterations, and \<open>None\<close> is a loop that has not ended within it.
\<close>

fun finalizeLoop ::
  "nat \<Rightarrow> nat \<Rightarrow> compilation \<Rightarrow> DiagnosticVisitor \<times> spec_id set \<Rightarrow>
   (DiagnosticVisitor \<times> spec_id set) option" where
  "finalizeLoop 0 fuel C (v, visitedSpecs) = None"
| "finalizeLoop (Suc passes) fuel C (v, visitedSpecs) =
     (case finalizePass fuel C (genericClasses v) (v, visitedSpecs, False) of
        None \<Rightarrow> None
      | Some (v', visitedSpecs', didSomething) \<Rightarrow>
          if didSomething then finalizeLoop passes fuel C (v', visitedSpecs')
          else Some (v', visitedSpecs'))"

text \<open>The last loop: the classes that were never instantiated.\<close>

fun visitInvalid :: "nat \<Rightarrow> compilation \<Rightarrow> class_id list \<Rightarrow> DiagnosticVisitor \<Rightarrow> DiagnosticVisitor option" where
  "visitInvalid fuel C [] v = Some v"
| "visitInvalid fuel C (g # gs) v =
     (if length (specializations v g) = 0
      then (case handle fuel C (getInvalidSpecialization C g) v of
              None \<Rightarrow> None
            | Some v' \<Rightarrow> visitInvalid fuel C gs v')
      else visitInvalid fuel C gs v)"

text \<open>\<open>finalize\<close> returns the visitor and, with it, its local set \<open>visitedSpecs\<close>.\<close>

definition finalize ::
  "nat \<Rightarrow> nat \<Rightarrow> compilation \<Rightarrow> DiagnosticVisitor \<Rightarrow> (DiagnosticVisitor \<times> spec_id set) option" where
  "finalize passes fuel C v =
     (case finalizeLoop passes fuel C (v, {}) of
        None \<Rightarrow> None
      | Some (v1, visitedSpecs) \<Rightarrow>
          (case visitInvalid fuel C (genericClasses v1) v1 of
             None \<Rightarrow> None
           | Some v2 \<Rightarrow> Some (v2, visitedSpecs)))"


section \<open>DefParamVisitor\<close>

text \<open>
  A node the visitor went into, with the generate depth it had when it did: an
  instance whose body it visits, a generate block whose members it visits.
\<close>

datatype dp_event = InstanceVisited nat | GenerateBlockVisited nat

text \<open>
  The members of the struct; \<open>dp_hierarchyProblem\<close> is the member \<open>hierarchyProblem\<close>
  (a pointer to the instance, or null). \<open>visits\<close> is not a member: it is a log of the
  nodes gone into, kept to state what \<open>numBlocksSeen\<close> counts; nothing reads it.
\<close>

record DefParamVisitor =
  found :: "nat list"
  activeInstances :: "def_id fset"
  instanceDepth :: nat
  maxInstanceDepth :: nat
  generateLevel :: nat
  numBlocksSeen :: nat
  generateDepth :: nat
  inRecursiveInstance :: bool
  dp_hierarchyProblem :: "nat option"
  visits :: "dp_event list"

fun members_of :: "symbol \<Rightarrow> symbol list" where
  "members_of (Symbol k info bd sub ms) = ms"

text \<open>
  The instance handler around the visit of the body: before it, the probe for a
  recursive instantiation, the counter and the depth; after it, their restoration.
  \<open>inserted\<close> and \<open>wasInRecursive\<close> are the handler's two locals.
\<close>

definition dp_inserted :: "def_id \<Rightarrow> DefParamVisitor \<Rightarrow> bool" where
  "dp_inserted d p = (\<not> inRecursiveInstance p \<and> d |\<notin>| activeInstances p)"

definition dp_enterInstance :: "def_id \<Rightarrow> DefParamVisitor \<Rightarrow> DefParamVisitor" where
  "dp_enterInstance d p =
     (let p1 = (if \<not> inRecursiveInstance p
                then (if d |\<notin>| activeInstances p
                      then p\<lparr>activeInstances := finsert d (activeInstances p)\<rparr>
                      else p\<lparr>inRecursiveInstance := True\<rparr>)
                else p);
          p2 = (if generateDepth p1 \<le> generateLevel p1
                then p1\<lparr>numBlocksSeen := numBlocksSeen p1 + 1\<rparr> else p1)
      in p2\<lparr>instanceDepth := instanceDepth p2 + 1,
              visits := visits p2 @ [InstanceVisited (generateDepth p2)]\<rparr>)"

definition dp_leaveInstance :: "def_id \<Rightarrow> bool \<Rightarrow> bool \<Rightarrow> DefParamVisitor \<Rightarrow> DefParamVisitor" where
  "dp_leaveInstance d inserted wasInRecursive p =
     (let p1 = p\<lparr>instanceDepth := instanceDepth p - 1, inRecursiveInstance := wasInRecursive\<rparr>
      in if inserted then p1\<lparr>activeInstances := activeInstances p1 |-| {|d|}\<rparr> else p1)"

text \<open>The generate block handler around the visit of the members.\<close>

definition dp_enterBlock :: "DefParamVisitor \<Rightarrow> DefParamVisitor" where
  "dp_enterBlock p =
     (let p1 = (if generateDepth p < generateLevel p
                then p\<lparr>numBlocksSeen := numBlocksSeen p + 1\<rparr> else p)
      in p1\<lparr>generateDepth := generateDepth p1 + 1,
              visits := visits p1 @ [GenerateBlockVisited (generateDepth p1)]\<rparr>)"

definition dp_leaveBlock :: "DefParamVisitor \<Rightarrow> DefParamVisitor" where
  "dp_leaveBlock p = p\<lparr>generateDepth := generateDepth p - 1\<rparr>"

text \<open>
  The handlers, chosen by the kind of the node; every other kind is served by the
  empty \<^verbatim>\<open>handle\<close> template. \<open>dp_visitMembers\<close> is the loop of \<^verbatim>\<open>visitDefault\<close>,
  \<open>dp_visitArray\<close> the loop of \<^verbatim>\<open>handle(const GenerateBlockArraySymbol&)\<close>. \<open>fuel\<close>
  bounds the nested steps from an instance to its body.
\<close>

function (sequential) dp_handle :: "nat \<Rightarrow> compilation \<Rightarrow> symbol \<Rightarrow> DefParamVisitor \<Rightarrow> DefParamVisitor option"
and dp_visitMembers ::
  "nat \<Rightarrow> compilation \<Rightarrow> symbol list \<Rightarrow> DefParamVisitor \<Rightarrow> DefParamVisitor option"
and dp_visitArray ::
  "nat \<Rightarrow> compilation \<Rightarrow> symbol list \<Rightarrow> DefParamVisitor \<Rightarrow> DefParamVisitor option"
where
  "dp_handle fuel C (Symbol RootK info bd sub ms) p = dp_visitMembers fuel C ms p"
| "dp_handle fuel C (Symbol CompilationUnitK info bd sub ms) p = dp_visitMembers fuel C ms p"
| "dp_handle fuel C (Symbol (DefParamK getTarget getValue) info bd sub ms) p =
     Some (if generateDepth p \<le> generateLevel p then p\<lparr>found := found p @ [sym_id info]\<rparr> else p)"
| "dp_handle fuel C (Symbol (InstanceK d b getPortConnections conns) info bd sub ms) p =
     (if dp_hierarchyProblem p \<noteq> None then Some p
      else if instanceDepth p > maxInstanceDepth p
      then Some (p\<lparr>dp_hierarchyProblem := Some (sym_id info)\<rparr>)
      else
        (case fuel of
           0 \<Rightarrow> None
         | Suc n \<Rightarrow>
             map_option (dp_leaveInstance d (dp_inserted d p) (inRecursiveInstance p))
               (dp_visitMembers n C (members_of (bodies C b)) (dp_enterInstance d p))))"
| "dp_handle fuel C (Symbol (GenerateBlockK isInstantiated) info bd sub ms) p =
     (if \<not> isInstantiated \<or> dp_hierarchyProblem p \<noteq> None then Some p
      else if generateDepth p \<ge> generateLevel p \<and> \<not> inRecursiveInstance p then Some p
      else map_option dp_leaveBlock (dp_visitMembers fuel C ms (dp_enterBlock p)))"
| "dp_handle fuel C (Symbol GenerateBlockArrayK info bd sub ms) p = dp_visitArray fuel C ms p"
| "dp_handle fuel C (Symbol (MethodPrototypeK getSubroutine interfaceExtern) info bd sub ms) p = Some p"
| "dp_handle fuel C (Symbol (PlainK pk) info bd sub ms) p = Some p"
| "dp_visitMembers fuel C [] p = Some p"
| "dp_visitMembers fuel C (m # ms) p =
     (case dp_handle fuel C m p of
        None \<Rightarrow> None
      | Some p1 \<Rightarrow> dp_visitMembers fuel C ms p1)"
| "dp_visitArray fuel C [] p = Some p"
| "dp_visitArray fuel C (m # ms) p =
     (if dp_hierarchyProblem p \<noteq> None then Some p
      else (case dp_handle fuel C m p of
              None \<Rightarrow> None
            | Some p1 \<Rightarrow> dp_visitArray fuel C ms p1))"
  by pat_completeness auto

termination
  by (relation "inv_image (less_than <*lex*> less_than)
       (\<lambda>x. case x of
          Inl (fuel, C, s, p) \<Rightarrow> (fuel, size s)
        | Inr (Inl (fuel, C, ms, p)) \<Rightarrow> (fuel, size_list size ms)
        | Inr (Inr (fuel, C, ms, p)) \<Rightarrow> (fuel, size_list size ms))") auto

section \<open>Notions used to state the properties\<close>

subsection \<open>String methods\<close>


subsection \<open>DiagnosticVisitor\<close>

text \<open>The two diagnostics the visitor issues itself.\<close>

definition isStructural :: "diagnostic \<Rightarrow> bool" where
  "isStructural d = (d_code d = InfinitelyRecursiveHierarchy \<or> d_code d = MaxInstanceDepthExceeded)"

definition structuralDiags :: "diagnostic list \<Rightarrow> diagnostic list" where
  "structuralDiags ds = filter isStructural ds"

text \<open>
  A step on the compilation's side (a getter, or a list of the visitor growing): it
  leaves the members below as they are, never lowers the count of errors and only
  appends to the sink.
\<close>

definition collab_step :: "DiagnosticVisitor \<Rightarrow> DiagnosticVisitor \<Rightarrow> bool" where
  "collab_step v v' =
     (activeInstanceBodies v' = activeInstanceBodies v \<and>
      hierarchyProblem v' = hierarchyProblem v \<and>
      errorLimit v' = errorLimit v \<and>
      instanceCount v' = instanceCount v \<and>
      entries v' = entries v \<and>
      structuralDiags (diags v') = structuralDiags (diags v) \<and>
      numErrors v \<le> numErrors v' \<and>
      (\<exists>ds. diags v' = diags v @ ds))"

text \<open>
  What stays of the two conditions of the short circuit between two points of a
  traversal: the limit is the same, the count of errors has not gone down, the
  sink has only grown, and the flag is set at the second point exactly when it was
  set at the first or one of the two structural diagnostics was issued in between.
\<close>

definition sticky_step :: "DiagnosticVisitor \<Rightarrow> DiagnosticVisitor \<Rightarrow> bool" where
  "sticky_step v v' =
     (errorLimit v' = errorLimit v \<and>
      numErrors v \<le> numErrors v' \<and>
      (\<exists>ds. diags v' = diags v @ ds \<and>
            (hierarchyProblem v' \<longleftrightarrow> hierarchyProblem v \<or> (\<exists>d\<in>set ds. isStructural d))))"

text \<open>What every handler keeps between its entry and its return.\<close>

definition visit_step :: "DiagnosticVisitor \<Rightarrow> DiagnosticVisitor \<Rightarrow> bool" where
  "visit_step v v' =
     (errorLimit v' = errorLimit v \<and>
      activeInstanceBodies v' = activeInstanceBodies v \<and>
      (hierarchyProblem v \<longrightarrow> hierarchyProblem v') \<and>
      numErrors v \<le> numErrors v')"

text \<open>
  The successful entries for a definition (the body was visited) and the rejected
  ones, read off the log.
\<close>

definition successfulEntries :: "def_id \<Rightarrow> entry_event list \<Rightarrow> nat" where
  "successfulEntries d es = length (filter (\<lambda>e. e = Entered d) es)"

definition rejectedEntries :: "def_id \<Rightarrow> entry_event list \<Rightarrow> nat" where
  "rejectedEntries d es = length (filter (\<lambda>e. e = Rejected d) es)"

definition entries_counted :: "DiagnosticVisitor \<Rightarrow> bool" where
  "entries_counted v =
     (\<forall>d. instanceCount v d = successfulEntries d (entries v) + rejectedEntries d (entries v))"

text \<open>
  The structural diagnostics and the flag go together: none while the flag is
  clear, one once it is set.
\<close>

definition structural_once :: "DiagnosticVisitor \<Rightarrow> bool" where
  "structural_once v =
     (length (structuralDiags (diags v)) = (if hierarchyProblem v then 1 else 0))"

text \<open>
  The cells the instance handler requests before its recursion check: the
  attributes of the instance, its port connections, and for each connection the
  expression, the net type check and the attributes.
\<close>

definition connCells :: "port_conn \<Rightarrow> nat set" where
  "connCells conn =
     {cell (getExpression conn), cell (checkSimulatedNetTypes conn)} \<union>
     cell ` set (conn_attributes conn)"

definition prologueCells :: "sym_info \<Rightarrow> lazy \<Rightarrow> port_conn list \<Rightarrow> nat set" where
  "prologueCells info getPortConnections conns =
     cell ` set (attributes info) \<union> {cell getPortConnections} \<union> (\<Union>conn\<in>set conns. connCells conn)"

text \<open>A visitor as its constructor leaves it, for a compilation with no error yet.\<close>

definition newDiagnosticVisitor :: "nat \<Rightarrow> DiagnosticVisitor" where
  "newDiagnosticVisitor limit =
     \<lparr>numErrors = 0, errorLimit = limit, diags = [], resolved = {},
      specializations = (\<lambda>g. []), hierarchyProblem = False, instanceCount = (\<lambda>d. 0),
      activeInstanceBodies = {||}, usedIfacePorts = {}, genericClasses = [],
      dpiImports = [], externIfaceProtos = [], modportsWithExports = [],
      timingPathMap = [], entries = []\<rparr>"

subsection \<open>DefParamVisitor\<close>

text \<open>
  Which logged visits the counter counts, and which the sentence of the
  specification counts (every instance and every generate block at a generate
  depth at or below the level).
\<close>

fun counted_visit :: "nat \<Rightarrow> dp_event \<Rightarrow> bool" where
  "counted_visit level (InstanceVisited depth) = (depth \<le> level)"
| "counted_visit level (GenerateBlockVisited depth) = (depth < level)"

fun spec_counted_visit :: "nat \<Rightarrow> dp_event \<Rightarrow> bool" where
  "spec_counted_visit level (InstanceVisited depth) = (depth \<le> level)"
| "spec_counted_visit level (GenerateBlockVisited depth) = (depth \<le> level)"

definition blocks_counted :: "DefParamVisitor \<Rightarrow> bool" where
  "blocks_counted p =
     (numBlocksSeen p = length (filter (counted_visit (generateLevel p)) (visits p)))"

definition newDefParamVisitor :: "nat \<Rightarrow> nat \<Rightarrow> DefParamVisitor" where
  "newDefParamVisitor maxDepth level =
     \<lparr>found = [], activeInstances = {||}, instanceDepth = 0, maxInstanceDepth = maxDepth,
      generateLevel = level, numBlocksSeen = 0, generateDepth = 0,
      inRecursiveInstance = False, dp_hierarchyProblem = None, visits = []\<rparr>"

text \<open>What every handler of the visitor keeps between its entry and its return.\<close>

definition dp_step :: "DefParamVisitor \<Rightarrow> DefParamVisitor \<Rightarrow> bool" where
  "dp_step p p' =
     (instanceDepth p' = instanceDepth p \<and>
      maxInstanceDepth p' = maxInstanceDepth p \<and>
      generateLevel p' = generateLevel p \<and>
      generateDepth p' = generateDepth p \<and>
      inRecursiveInstance p' = inRecursiveInstance p \<and>
      activeInstances p' = activeInstances p)"


section \<open>Concrete designs\<close>

definition plain_info :: "nat \<Rightarrow> string \<Rightarrow> sym_info" where
  "plain_info n name =
     \<lparr>sym_id = n, sym_name = name, sym_location = n, declaredType = None, attributes = []\<rparr>"

definition quiet :: "nat \<Rightarrow> lazy" where
  "quiet n = \<lparr>cell = n, emits = [], creates = []\<rparr>"

definition leaf :: symbol where
  "leaf = Symbol (PlainK OtherSymbolK) (plain_info 99 ''leaf'') None None []"

subsection \<open>A module that instantiates itself\<close>

text \<open>
  \<^verbatim>\<open>module M; (* a *) M m(.p(e)); endmodule\<close> with a root instance \<^verbatim>\<open>top\<close> of \<^verbatim>\<open>M\<close>:
  the definition is 0 and both instances refer to body 0. The attribute \<^verbatim>\<open>a\<close>
  issues a warning when evaluated, the expression \<^verbatim>\<open>e\<close> an error.
\<close>

definition rec_attr :: lazy where
  "rec_attr = \<lparr>cell = 11, emits = [CollabDiag False 7 3], creates = []\<rparr>"

definition rec_conn :: port_conn where
  "rec_conn =
     \<lparr>getExpression = \<lparr>cell = 12, emits = [CollabDiag True 8 4], creates = []\<rparr>,
      checkSimulatedNetTypes = quiet 13, conn_attributes = []\<rparr>"

definition rec_m_info :: sym_info where
  "rec_m_info = (plain_info 2 ''m'')\<lparr>attributes := [rec_attr]\<rparr>"

definition rec_m :: symbol where
  "rec_m = Symbol (InstanceK 0 0 (quiet 10) [rec_conn]) rec_m_info None None []"

definition rec_body :: symbol where
  "rec_body = Symbol (PlainK OtherSymbolK) (plain_info 1 ''M'') None None [rec_m]"

definition rec_top :: symbol where
  "rec_top = Symbol (InstanceK 0 0 (quiet 20) []) (plain_info 0 ''top'') None None []"

definition rec_design :: compilation where
  "rec_design =
     \<lparr>opt_maxInstanceDepth = 128, bodies = (\<lambda>b. rec_body), classTypes = (\<lambda>sp. leaf),
      getInvalidSpecialization = (\<lambda>g. leaf), getKindString = (\<lambda>d. ''module''),
      body_find = (\<lambda>b name. None)\<rparr>"

text \<open>The visitor inside \<^verbatim>\<open>top\<close>: body 0 is active.\<close>

definition rec_inside :: DiagnosticVisitor where
  "rec_inside = (newDiagnosticVisitor 10)\<lparr>activeInstanceBodies := {|0|}\<rparr>"

subsection \<open>A port, visited after the hierarchy problem\<close>

definition loud_port :: symbol where
  "loud_port =
     Symbol (PlainK (PortK \<lparr>cell = 30, emits = [CollabDiag True 5 6], creates = []\<rparr> (quiet 31)))
       (plain_info 3 ''p'') None None []"

definition stopped :: DiagnosticVisitor where
  "stopped = (newDiagnosticVisitor 10)\<lparr>hierarchyProblem := True\<rparr>"

subsection \<open>Generic classes\<close>

text \<open>
  \<^verbatim>\<open>class C #(type T = int); D #(int) d; endclass\<close> and
  \<^verbatim>\<open>class D #(type T = int); endclass\<close>, neither instantiated anywhere else: the two
  classes (0 and 1) have been collected and have no specialization. Resolving the
  type of the property \<^verbatim>\<open>d\<close> in the invalid specialization of \<^verbatim>\<open>C\<close> creates the
  specialization 7 of \<^verbatim>\<open>D\<close>.
\<close>

definition gc_property :: "nat \<Rightarrow> (class_id \<times> spec_id) list \<Rightarrow> symbol" where
  "gc_property n cs =
     Symbol (PlainK OtherSymbolK)
       ((plain_info n ''d'')\<lparr>declaredType := Some (\<lparr>cell = n, emits = [], creates = cs\<rparr>, quiet (n + 1))\<rparr>)
       None None []"

definition gc_class :: "nat \<Rightarrow> symbol list \<Rightarrow> symbol" where
  "gc_class n ms = Symbol (PlainK (ClassTypeK (quiet n))) (plain_info n ''C'') None None ms"

definition gc_design :: compilation where
  "gc_design =
     \<lparr>opt_maxInstanceDepth = 128, bodies = (\<lambda>b. leaf), classTypes = (\<lambda>sp. leaf),
      getInvalidSpecialization = (\<lambda>g. if g = 0 then gc_class 40 [gc_property 41 [(1, 7)]] else leaf),
      getKindString = (\<lambda>d. ''module''), body_find = (\<lambda>b name. None)\<rparr>"

definition gc_start :: DiagnosticVisitor where
  "gc_start = (newDiagnosticVisitor 10)\<lparr>genericClasses := [0, 1]\<rparr>"

text \<open>
  The same two classes where \<^verbatim>\<open>C\<close> has the specialization 5, whose property creates
  the specialization 6 of \<^verbatim>\<open>D\<close> when its type is resolved.
\<close>

definition gc_design2 :: compilation where
  "gc_design2 =
     \<lparr>opt_maxInstanceDepth = 128, bodies = (\<lambda>b. leaf),
      classTypes = (\<lambda>sp. if sp = 5 then gc_class 50 [gc_property 51 [(1, 6)]] else gc_class 60 []),
      getInvalidSpecialization = (\<lambda>g. leaf),
      getKindString = (\<lambda>d. ''module''), body_find = (\<lambda>b name. None)\<rparr>"

definition gc_start2 :: DiagnosticVisitor where
  "gc_start2 =
     (newDiagnosticVisitor 10)\<lparr>specializations := (\<lambda>g. [])(0 := [5]), genericClasses := [0, 1]\<rparr>"

subsection \<open>A generate block inside a recursive instantiation\<close>

text \<open>
  \<^verbatim>\<open>module M #(N = 0); if (N < 1) begin : g M #(N + 1) m(); end
  else begin : h defparam ...; end endmodule\<close> with a root instance \<^verbatim>\<open>top\<close> of \<^verbatim>\<open>M\<close>
  (definition 0). In the body of \<^verbatim>\<open>top\<close> (body 0, \<^verbatim>\<open>N = 0\<close>) the block \<^verbatim>\<open>g\<close> is
  instantiated and holds the instance \<^verbatim>\<open>m\<close>; in the body of \<^verbatim>\<open>m\<close> (body 1, \<^verbatim>\<open>N = 1\<close>)
  the block \<^verbatim>\<open>h\<close> is instantiated and holds the defparam.
\<close>

definition dp_defparam :: symbol where
  "dp_defparam = Symbol (DefParamK (quiet 70) (quiet 71)) (plain_info 7 ''dp'') None None []"

definition dp_h :: symbol where
  "dp_h = Symbol (GenerateBlockK True) (plain_info 6 ''h'') None None [dp_defparam]"

definition dp_m :: symbol where
  "dp_m = Symbol (InstanceK 0 1 (quiet 72) []) (plain_info 5 ''m'') None None []"

definition dp_g :: symbol where
  "dp_g = Symbol (GenerateBlockK True) (plain_info 3 ''g'') None None [dp_m]"

definition dp_top :: symbol where
  "dp_top = Symbol (InstanceK 0 0 (quiet 73) []) (plain_info 4 ''top'') None None []"

definition dp_body0 :: symbol where
  "dp_body0 =
     Symbol (PlainK OtherSymbolK) (plain_info 8 ''M'') None None
       [dp_g, Symbol (GenerateBlockK False) (plain_info 6 ''h'') None None [dp_defparam]]"

definition dp_body1 :: symbol where
  "dp_body1 =
     Symbol (PlainK OtherSymbolK) (plain_info 9 ''M'') None None
       [Symbol (GenerateBlockK False) (plain_info 3 ''g'') None None [], dp_h]"

definition dp_design :: compilation where
  "dp_design =
     \<lparr>opt_maxInstanceDepth = 5,
      bodies = (\<lambda>b. if b = 0 then dp_body0 else dp_body1),
      classTypes = (\<lambda>sp. leaf), getInvalidSpecialization = (\<lambda>g. leaf),
      getKindString = (\<lambda>d. ''module''), body_find = (\<lambda>b name. None)\<rparr>"


section \<open>Properties of the string methods\<close>







text \<open>
  C5: \<^verbatim>\<open>compare\<close> and \<^verbatim>\<open>icompare\<close> return exactly -1, 0 or 1. The branch for
  \<^verbatim>\<open>compare\<close> normalises its result (\<open>compare_normalised\<close> below); the branch for
  \<^verbatim>\<open>icompare\<close> returns the difference of the first two bytes that differ after case
  folding: \<^verbatim>\<open>"a".icompare("c")\<close> is -2.
\<close>

theorem icompare_returns_difference:
  "map_option sint (StringCompareMethod_eval True (Some ''a'') (Some ''c'')) = Some (- 2)"
  by (simp add: StringCompareMethod_eval_def compare_result_def c_char_def c_tolower_def)

text \<open>
  Bytes from 0x80 on: \<^verbatim>\<open>tolower\<close> returns them as unsigned values, so the byte 0xC0
  is above \<^verbatim>\<open>a\<close> and \<^verbatim>\<open>a\<close> is below the byte 0x80.
\<close>

lemma icompare_high_bytes:
  "compare_result True [CHR 0xC0] ''a'' = 95"
  "compare_result True ''a'' [CHR 0x80] = - 31"
  by (simp_all add: compare_result_def c_char_def c_tolower_def)

lemma compare_normalised: "compare_result False lhs rhs \<in> {-1, 0, 1}"
  by (simp add: compare_result_def Let_def)

lemma std_string_compare_zero: "std_string_compare lhs rhs = 0 \<longleftrightarrow> lhs = rhs"
  by (induction lhs rhs rule: std_string_compare.induct) auto








section \<open>Properties of DiagnosticVisitor\<close>

subsection \<open>Steps on the compilation's side\<close>

lemma collab_step_refl: "collab_step v v"
  by (simp add: collab_step_def)

lemma collab_step_trans: "collab_step a b \<Longrightarrow> collab_step b c \<Longrightarrow> collab_step a c"
  by (auto simp: collab_step_def)

lemma collab_addDiag: "collab_step v (addDiag (Diagnostic (CollaboratorDiag c) l as) e v)"
  by (simp add: collab_step_def addDiag_def structuralDiags_def isStructural_def)

lemma collab_issue: "collab_step v (issue cs v)"
proof (induction cs arbitrary: v)
  case Nil
  show ?case by (simp add: collab_step_refl)
next
  case (Cons c cs)
  show ?case using collab_step_trans [OF collab_addDiag Cons] by simp
qed

lemma collab_specialize: "collab_step v (specialize rs v)"
proof (induction rs arbitrary: v)
  case Nil
  show ?case by (simp add: collab_step_refl)
next
  case (Cons r rs)
  obtain g sp where r: "r = (g, sp)" by (cases r)
  have "collab_step v (if sp \<in> set (specializations v g) then v
        else v\<lparr>specializations := (specializations v)(g := specializations v g @ [sp])\<rparr>)"
    by (simp add: collab_step_def)
  from collab_step_trans [OF this Cons] show ?case by (simp add: r)
qed

lemma collab_force: "collab_step v (force l v)"
proof (cases "cell l \<in> resolved v")
  case True
  then show ?thesis by (simp add: force_def collab_step_refl)
next
  case False
  have "collab_step v (v\<lparr>resolved := insert (cell l) (resolved v)\<rparr>)"
    by (simp add: collab_step_def)
  then have "collab_step v (specialize (creates l) (issue (emits l) (v\<lparr>resolved := insert (cell l) (resolved v)\<rparr>)))"
    by (blast intro: collab_step_trans collab_issue collab_specialize)
  with False show ?thesis by (simp add: force_def)
qed

lemma collab_forceAll: "collab_step v (forceAll ls v)"
proof (induction ls arbitrary: v)
  case Nil
  show ?case by (simp add: collab_step_refl)
next
  case (Cons l ls)
  show ?case using collab_step_trans [OF collab_force Cons] by simp
qed

lemma collab_force2: "collab_step v (force a (force b v))"
  by (rule collab_step_trans [OF collab_force collab_force])

lemma collab_force3: "collab_step v (force a (force b (force c v)))"
  by (rule collab_step_trans [OF collab_force collab_force2])

lemma collab_forceAll_force: "collab_step v (forceAll ls (force a v))"
  by (rule collab_step_trans [OF collab_force collab_forceAll])

lemma collab_forceConns: "collab_step v (forceConns cs v)"
proof (induction cs arbitrary: v)
  case Nil
  show ?case by (simp add: collab_step_refl)
next
  case (Cons c cs)
  have "collab_step v (forceAll (conn_attributes c)
          (force (checkSimulatedNetTypes c) (force (getExpression c) v)))"
    by (rule collab_step_trans [OF collab_force2 collab_forceAll])
  from collab_step_trans [OF this Cons] show ?case by simp
qed

lemma collab_forceDeclaredType: "collab_step v (forceDeclaredType dt v)"
  by (cases "(dt, v)" rule: forceDeclaredType.cases)
     (simp_all add: collab_step_refl collab_force2)

lemma collab_forceValue: "collab_step v (forceValue k v)"
  by (cases "(k, v)" rule: forceValue.cases)
     (simp_all add: collab_step_refl collab_force)

lemma collab_forceSymbol: "collab_step v (forceSymbol k info v)"
  unfolding forceSymbol_def
  using collab_step_trans [OF collab_forceDeclaredType collab_step_trans [OF collab_forceValue collab_forceAll]]
  by (simp add: collab_step_refl)

lemma collab_step_update:
  "collab_step v (v\<lparr>usedIfacePorts := a\<rparr>)"
  "collab_step v (v\<lparr>modportsWithExports := b\<rparr>)"
  "collab_step v (v\<lparr>timingPathMap := c\<rparr>)"
  "collab_step v (v\<lparr>genericClasses := d\<rparr>)"
  "collab_step v (v\<lparr>dpiImports := e\<rparr>)"
  "collab_step v (v\<lparr>externIfaceProtos := f\<rparr>)"
  by (simp_all add: collab_step_def)

lemma collab_InterfacePort:
  "collab_step v (handleSpecific C (InterfacePortK r d m g c) info v)"
proof (cases d)
  case None
  then show ?thesis by (simp add: collab_force)
next
  case (Some df)
  let ?v2 = "(force r v)\<lparr>usedIfacePorts := insert df (usedIfacePorts (force r v))\<rparr>"
  have v2: "collab_step v ?v2"
    by (rule collab_step_trans [OF collab_force collab_step_update(1)])
  have v3: "collab_step v (force g ?v2)"
    by (rule collab_step_trans [OF v2 collab_force])
  have v4: "collab_step v ((force g ?v2)\<lparr>modportsWithExports := x\<rparr>)" for x
    by (rule collab_step_trans [OF v3 collab_step_update(2)])
  show ?thesis using v2 v3 v4
    by (simp add: Some Let_def split: option.split sym_ref.split)
qed

lemma collab_handleSpecific: "collab_step v (handleSpecific C pk info v)"
proof (cases pk)
  case (InterfacePortK r d m g c)
  show ?thesis unfolding InterfacePortK by (rule collab_InterfacePort)
next
  case (TimingPathK l)
  show ?thesis unfolding TimingPathK
    using collab_step_trans [OF collab_step_update(3) collab_force] by simp
qed (simp_all add: collab_step_refl collab_force collab_force2 collab_force3
       collab_forceAll_force collab_step_update)



lemma collab_instancePrologue:
  "collab_step (v\<lparr>instanceCount := (instanceCount v)(d := instanceCount v d + 1)\<rparr>)
     (instancePrologue d pc conns info v)"
  unfolding instancePrologue_def
  by (rule collab_step_trans [OF collab_forceAll collab_step_trans [OF collab_force collab_forceConns]])

subsection \<open>An induction principle for the traversal\<close>

text \<open>
  A relation between visitors that is reflexive and transitive, that holds for every
  step on the compilation's side and for the three ways through the instance
  handler, holds between the entry and the return of every handler.
\<close>

declare handleDefault.simps [simp del]

declare handle.simps [simp del]

lemma handle_related:
  fixes R :: "DiagnosticVisitor \<Rightarrow> DiagnosticVisitor \<Rightarrow> bool"
  assumes R_refl: "\<And>v. R v v"
    and R_trans: "\<And>a b c. R a b \<Longrightarrow> R b c \<Longrightarrow> R a c"
    and R_collab: "\<And>v v'. collab_step v v' \<Longrightarrow> R v v'"
    and R_recursive: "\<And>v d pc conns info b.
          \<not> shortCircuit v \<Longrightarrow> b |\<in>| activeInstanceBodies (instancePrologue d pc conns info v) \<Longrightarrow>
          R v (rejectRecursive d info (instancePrologue d pc conns info v))"
    and R_depth: "\<And>C v d pc conns info b v1.
          \<not> shortCircuit v \<Longrightarrow> v1 = instancePrologue d pc conns info v \<Longrightarrow>
          b |\<notin>| activeInstanceBodies v1 \<Longrightarrow>
          R v (guard_erase b (rejectDepth C d info
                 (v1\<lparr>activeInstanceBodies := finsert b (activeInstanceBodies v1)\<rparr>)))"
    and R_descend: "\<And>v d pc conns info b v1 w.
          \<not> shortCircuit v \<Longrightarrow> v1 = instancePrologue d pc conns info v \<Longrightarrow>
          b |\<notin>| activeInstanceBodies v1 \<Longrightarrow>
          R (v1\<lparr>activeInstanceBodies := finsert b (activeInstanceBodies v1),
                entries := entries v1 @ [Entered d]\<rparr>) w \<Longrightarrow>
          R v (guard_erase b w)"
  shows "\<forall>v'. handle fuel C sy v = Some v' \<longrightarrow> R v v'"
    and "\<forall>ok v'. handleDefault fuel C sy v = Some (ok, v') \<longrightarrow> R v v'"
    and "\<forall>v'. visitMembers fuel C ms v = Some v' \<longrightarrow> R v v'"
  supply handle.simps [simp]
proof (induction fuel C sy v and fuel C sy v and fuel C ms v
       rule: handle_handleDefault_visitMembers.induct)
  case (1 fuel C d b pc conns info bd sub ms v)
  let ?v1 = "instancePrologue d pc conns info v"
  show ?case
  proof (intro allI impI)
    fix v' assume h: "handle fuel C (Symbol (InstanceK d b pc conns) info bd sub ms) v = Some v'"
    show "R v v'"
    proof (cases "shortCircuit v")
      case True
      with h show ?thesis by (simp add: R_refl)
    next
      case sc: False
      show ?thesis
      proof (cases "b |\<in>| activeInstanceBodies ?v1")
        case True
        with h sc have "v' = rejectRecursive d info ?v1" by (simp add: Let_def)
        then show ?thesis using R_recursive [OF sc True] by simp
      next
        case nb: False
        let ?v2 = "?v1\<lparr>activeInstanceBodies := finsert b (activeInstanceBodies ?v1)\<rparr>"
        show ?thesis
        proof (cases "fcard (activeInstanceBodies ?v2) > opt_maxInstanceDepth C")
          case True
          with h sc nb have "v' = guard_erase b (rejectDepth C d info ?v2)" by (simp add: Let_def)
          then show ?thesis using R_depth [OF sc refl nb] by simp
        next
          case nd: False
          from h sc nb nd obtain n where n: "fuel = Suc n"
            by (cases fuel) (simp_all add: Let_def)
          from h sc nb nd n obtain w where
            w: "handle n C (bodies C b) (?v2\<lparr>entries := entries ?v2 @ [Entered d]\<rparr>) = Some w"
            and v': "v' = guard_erase b w"
            by (auto simp: Let_def)
          from "1.IH" [OF sc refl nb refl nd n] w
          have "R (?v2\<lparr>entries := entries ?v2 @ [Entered d]\<rparr>) w" by blast
          then have "R v (guard_erase b w)"
            using R_descend [OF sc refl nb, of w] by simp
          with v' show ?thesis by simp
        qed
      qed
    qed
  qed
next
  case (2 fuel C isInstantiated info bd sub ms v)
  then show ?case by (auto simp: R_refl)
next
  case (3 fuel C getSubroutine interfaceExtern info bd sub ms v)
  show ?case
  proof (intro allI impI)
    fix v'
    assume h: "handle fuel C (Symbol (MethodPrototypeK getSubroutine interfaceExtern) info bd sub ms) v = Some v'"
    then obtain ok v1 where
      hd: "handleDefault fuel C (Symbol (MethodPrototypeK getSubroutine interfaceExtern) info bd sub ms) v = Some (ok, v1)"
      by (auto split: option.splits)
    from "3.IH"(1) hd have s1: "R v v1" by blast
    show "R v v'"
    proof (cases ok)
      case False
      with h hd s1 show ?thesis by simp
    next
      case True
      let ?v2 = "force getSubroutine v1"
      have s2: "R v ?v2"
        by (rule R_trans [OF s1 R_collab [OF collab_force]])
      from h hd True obtain v3 where
        v3: "(case sub of None \<Rightarrow> Some ?v2 | Some s \<Rightarrow> handle fuel C s ?v2) = Some v3"
        and v': "v' = (if interfaceExtern
                     then v3\<lparr>externIfaceProtos := externIfaceProtos v3 @ [sym_id info]\<rparr>
                     else v3)"
        by (auto split: option.splits)
      have "R ?v2 v3"
      proof (cases sub)
        case None
        with v3 show ?thesis by (simp add: R_refl)
      next
        case (Some s)
        from True have ok: "ok = True" by simp
        from v3 "3.IH"(2) [OF hd refl ok Some] Some show ?thesis by simp
      qed
      with s2 have "R v v3" by (rule R_trans)
      moreover have "R v3 v'"
        unfolding v' using R_collab [OF collab_step_update(6)] by (simp add: R_refl)
      ultimately show ?thesis by (rule R_trans)
    qed
  qed
next
  case (4 fuel C getTarget getValue info bd sub ms v)
  then show ?case
    by (auto split: option.splits bool.splits
        intro: R_trans [OF _ R_collab [OF collab_force2]])
next
  case (5 fuel C pk info bd sub ms v)
  then show ?case
    by (auto split: option.splits bool.splits
        intro: R_trans [OF _ R_collab [OF collab_handleSpecific]])
next
  case (6 fuel C info bd sub ms v)
  then show ?case by auto
next
  case (7 fuel C info bd sub ms v)
  then show ?case by auto
next
  case (8 fuel C info bd sub ms v)
  then show ?case by auto
next
  case (9 fuel C k info bd sub ms v)
  show ?case
  proof (intro allI impI)
    fix ok v'
    assume h: "handleDefault fuel C (Symbol k info bd sub ms) v = Some (ok, v')"
    show "R v v'"
    proof (cases "shortCircuit v")
      case True
      with h show ?thesis by (simp add: R_refl handleDefault.simps)
    next
      case sc: False
      let ?v1 = "forceSymbol k info v"
      have s1: "R v ?v1" by (rule R_collab [OF collab_forceSymbol])
      show ?thesis
      proof (cases bd)
        case None
        with h sc have "visitMembers fuel C ms ?v1 = Some v'"
          by (auto simp: Let_def handleDefault.simps)
        with "9.IH"(1) [OF sc refl None] have "R ?v1 v'" by blast
        with s1 show ?thesis by (rule R_trans)
      next
        case (Some t)
        obtain getBody bad body where t: "t = (getBody, bad, body)" by (cases t)
        let ?v2 = "force getBody ?v1"
        have s2: "R v ?v2"
          by (rule R_trans [OF s1 R_collab [OF collab_force]])
        show ?thesis
        proof (cases bad)
          case True
          with h sc Some t have "v' = ?v2" by (simp add: Let_def handleDefault.simps)
          with s2 show ?thesis by simp
        next
          case nb: False
          from h sc Some t nb obtain v3 where
            v3: "handle fuel C body ?v2 = Some v3" and
            vm: "visitMembers fuel C ms v3 = Some v'"
            by (auto simp: Let_def handleDefault.simps split: option.splits)
          from "9.IH"(2) [OF sc refl Some [unfolded t] refl refl refl nb] v3
          have s3: "R ?v2 v3" by blast
          from "9.IH"(3) [OF sc refl Some [unfolded t] refl refl refl nb v3] vm
          have "R v3 v'" by blast
          with s2 s3 show ?thesis by (blast intro: R_trans)
        qed
      qed
    qed
  qed
next
  case (10 fuel C v)
  then show ?case by (simp add: R_refl)
next
  case (11 fuel C m ms v)
  then show ?case
    by (auto split: option.splits intro: R_trans)
qed

subsection \<open>What a handler keeps\<close>

lemma visit_step_refl: "visit_step v v"
  by (simp add: visit_step_def)

lemma visit_step_trans: "visit_step a b \<Longrightarrow> visit_step b c \<Longrightarrow> visit_step a c"
  by (auto simp: visit_step_def)

lemma collab_visit_step: "collab_step v v' \<Longrightarrow> visit_step v v'"
  by (simp add: collab_step_def visit_step_def)

lemma visit_step_instancePrologue: "visit_step v (instancePrologue d pc conns info v)"
  using collab_instancePrologue [of v d pc conns info]
  by (simp add: collab_step_def visit_step_def)

lemma visit_step_recursive:
  "visit_step v (rejectRecursive d info (instancePrologue d pc conns info v))"
  using visit_step_instancePrologue [of v d pc conns info]
  by (simp add: visit_step_def rejectRecursive_def addDiag_def)

lemma visit_step_depth:
  assumes "v1 = instancePrologue d pc conns info v" "b |\<notin>| activeInstanceBodies v1"
  shows "visit_step v (guard_erase b (rejectDepth C d info
           (v1\<lparr>activeInstanceBodies := finsert b (activeInstanceBodies v1)\<rparr>)))"
  using assms visit_step_instancePrologue [of v d pc conns info]
  by (simp add: visit_step_def rejectDepth_def addDiag_def guard_erase_def)

lemma visit_step_descend:
  assumes "v1 = instancePrologue d pc conns info v" "b |\<notin>| activeInstanceBodies v1"
    and "visit_step (v1\<lparr>activeInstanceBodies := finsert b (activeInstanceBodies v1),
                      entries := entries v1 @ [Entered d]\<rparr>) w"
  shows "visit_step v (guard_erase b w)"
  using assms visit_step_instancePrologue [of v d pc conns info]
  by (simp add: visit_step_def guard_erase_def)

lemma handle_visit_step_all:
  "\<forall>v'. handle fuel C sy v = Some v' \<longrightarrow> visit_step v v'"
  "\<forall>ok v'. handleDefault fuel C sy v = Some (ok, v') \<longrightarrow> visit_step v v'"
  "\<forall>v'. visitMembers fuel C ms v = Some v' \<longrightarrow> visit_step v v'"
proof -
  have a: "\<And>v. visit_step v v" by (rule visit_step_refl)
  have b: "\<And>a b c. visit_step a b \<Longrightarrow> visit_step b c \<Longrightarrow> visit_step a c"
    by (rule visit_step_trans)
  have c: "\<And>v v'. collab_step v v' \<Longrightarrow> visit_step v v'" by (rule collab_visit_step)
  have d: "\<And>v d pc conns info b.
          \<not> shortCircuit v \<Longrightarrow> b |\<in>| activeInstanceBodies (instancePrologue d pc conns info v) \<Longrightarrow>
          visit_step v (rejectRecursive d info (instancePrologue d pc conns info v))"
    by (rule visit_step_recursive)
  have e: "\<And>C v d pc conns info b v1.
          \<not> shortCircuit v \<Longrightarrow> v1 = instancePrologue d pc conns info v \<Longrightarrow>
          b |\<notin>| activeInstanceBodies v1 \<Longrightarrow>
          visit_step v (guard_erase b (rejectDepth C d info
                 (v1\<lparr>activeInstanceBodies := finsert b (activeInstanceBodies v1)\<rparr>)))"
    by (rule visit_step_depth)
  have f: "\<And>v d pc conns info b v1 w.
          \<not> shortCircuit v \<Longrightarrow> v1 = instancePrologue d pc conns info v \<Longrightarrow>
          b |\<notin>| activeInstanceBodies v1 \<Longrightarrow>
          visit_step (v1\<lparr>activeInstanceBodies := finsert b (activeInstanceBodies v1),
                entries := entries v1 @ [Entered d]\<rparr>) w \<Longrightarrow>
          visit_step v (guard_erase b w)"
    by (rule visit_step_descend)
  note r = handle_related [of visit_step, OF a b c d e f]
  show "\<forall>v'. handle fuel C sy v = Some v' \<longrightarrow> visit_step v v'" by (rule r(1))
  show "\<forall>ok v'. handleDefault fuel C sy v = Some (ok, v') \<longrightarrow> visit_step v v'" by (rule r(2))
  show "\<forall>v'. visitMembers fuel C ms v = Some v' \<longrightarrow> visit_step v v'" by (rule r(3))
qed

lemma handle_visit_step: "handle fuel C sy v = Some v' \<Longrightarrow> visit_step v v'"
  using handle_visit_step_all(1) by blast

lemma visitMembers_visit_step: "visitMembers fuel C ms v = Some v' \<Longrightarrow> visit_step v v'"
  using handle_visit_step_all(3) by blast

subsection \<open>The short circuit\<close>

lemma handleDefault_shortCircuit:
  "shortCircuit v \<Longrightarrow> handleDefault fuel C sy v = Some (False, v)"
  by (cases sy) (simp add: handleDefault.simps)

lemma handle_shortCircuit: "shortCircuit v \<Longrightarrow> handle fuel C sy v = Some v"
  supply handle.simps [simp]
proof (cases sy)
  case (Symbol k info bd sub ms)
  assume "shortCircuit v"
  then show ?thesis
    unfolding Symbol by (cases k) (simp_all add: handleDefault_shortCircuit)
qed

lemma visitMembers_shortCircuit: "shortCircuit v \<Longrightarrow> visitMembers fuel C ms v = Some v"
  by (induction ms) (simp_all add: handle_shortCircuit)

subsection \<open>Enough fuel\<close>

text \<open>
  The depth check bounds the nesting of instances, so a traversal returns as soon
  as the fuel exceeds what the check still allows.
\<close>

lemma handle_returns_all:
  "opt_maxInstanceDepth C < fuel + fcard (activeInstanceBodies v) \<longrightarrow>
     (\<exists>v'. handle fuel C sy v = Some v')"
  "opt_maxInstanceDepth C < fuel + fcard (activeInstanceBodies v) \<longrightarrow>
     (\<exists>r. handleDefault fuel C sy v = Some r)"
  "opt_maxInstanceDepth C < fuel + fcard (activeInstanceBodies v) \<longrightarrow>
     (\<exists>v'. visitMembers fuel C ms v = Some v')"
  supply handle.simps [simp]
proof (induction fuel C sy v and fuel C sy v and fuel C ms v
       rule: handle_handleDefault_visitMembers.induct)
  case (1 fuel C d b pc conns info bd sub ms v)
  let ?v1 = "instancePrologue d pc conns info v"
  have a1: "activeInstanceBodies ?v1 = activeInstanceBodies v"
    using visit_step_instancePrologue [of v d pc conns info] by (simp add: visit_step_def)
  show ?case
  proof
    assume f: "opt_maxInstanceDepth C < fuel + fcard (activeInstanceBodies v)"
    show "\<exists>v'. handle fuel C (Symbol (InstanceK d b pc conns) info bd sub ms) v = Some v'"
    proof (cases "shortCircuit v \<or> b |\<in>| activeInstanceBodies ?v1 \<or>
                  fcard (finsert b (activeInstanceBodies ?v1)) > opt_maxInstanceDepth C")
      case True
      then show ?thesis by (auto simp: Let_def)
    next
      case False
      then have sc: "\<not> shortCircuit v" and nb: "b |\<notin>| activeInstanceBodies ?v1"
        and nd: "\<not> fcard (finsert b (activeInstanceBodies ?v1)) > opt_maxInstanceDepth C"
        by simp_all
      let ?v2 = "?v1\<lparr>activeInstanceBodies := finsert b (activeInstanceBodies ?v1)\<rparr>"
      have c: "fcard (finsert b (activeInstanceBodies ?v1)) = Suc (fcard (activeInstanceBodies v))"
        using nb a1 by (simp add: fcard_finsert_disjoint)
      with nd f obtain n where n: "fuel = Suc n" by (cases fuel) auto
      have nd': "\<not> opt_maxInstanceDepth C < fcard (activeInstanceBodies ?v2)" using nd by simp
      have "opt_maxInstanceDepth C < n + fcard (activeInstanceBodies (?v2\<lparr>entries := entries ?v2 @ [Entered d]\<rparr>))"
        using f n c by simp
      with "1.IH" [OF sc refl nb refl nd' n]
      obtain w where "handle n C (bodies C b) (?v2\<lparr>entries := entries ?v2 @ [Entered d]\<rparr>) = Some w"
        by blast
      with sc nb nd n show ?thesis by (simp add: Let_def)
    qed
  qed
next
  case (2 fuel C isInstantiated info bd sub ms v)
  then show ?case by auto
next
  case (3 fuel C getSubroutine interfaceExtern info bd sub ms v)
  show ?case
  proof
    assume f: "opt_maxInstanceDepth C < fuel + fcard (activeInstanceBodies v)"
    with "3.IH"(1) obtain ok v1 where
      hd: "handleDefault fuel C (Symbol (MethodPrototypeK getSubroutine interfaceExtern) info bd sub ms) v = Some (ok, v1)"
      by auto
    show "\<exists>v'. handle fuel C (Symbol (MethodPrototypeK getSubroutine interfaceExtern) info bd sub ms) v = Some v'"
    proof (cases "ok \<and> sub \<noteq> None")
      case False
      with hd show ?thesis by (cases ok) auto
    next
      case True
      then obtain s where s: "sub = Some s" and ok: "ok = True" by auto
      have "activeInstanceBodies (force getSubroutine v1) = activeInstanceBodies v"
        using handle_visit_step_all(2) [of fuel C _ v] hd collab_force [of v1 getSubroutine]
        by (auto simp: visit_step_def collab_step_def)
      with f "3.IH"(2) [OF hd refl ok s]
      obtain v2 where "handle fuel C s (force getSubroutine v1) = Some v2" by auto
      with hd s ok show ?thesis by simp
    qed
  qed
next
  case (4 fuel C getTarget getValue info bd sub ms v)
  then show ?case by (auto split: bool.splits)
next
  case (5 fuel C pk info bd sub ms v)
  then show ?case by (auto split: bool.splits)
next
  case (6 fuel C info bd sub ms v)
  then show ?case by auto
next
  case (7 fuel C info bd sub ms v)
  then show ?case by auto
next
  case (8 fuel C info bd sub ms v)
  then show ?case by auto
next
  case (9 fuel C k info bd sub ms v)
  show ?case
  proof
    assume f: "opt_maxInstanceDepth C < fuel + fcard (activeInstanceBodies v)"
    show "\<exists>r. handleDefault fuel C (Symbol k info bd sub ms) v = Some r"
    proof (cases "shortCircuit v")
      case True
      then show ?thesis using handleDefault_shortCircuit by blast
    next
      case sc: False
      let ?v1 = "forceSymbol k info v"
      have a1: "activeInstanceBodies ?v1 = activeInstanceBodies v"
        using collab_forceSymbol [of v k info] by (simp add: collab_step_def)
      show ?thesis
      proof (cases bd)
        case None
        from "9.IH"(1) [OF sc refl None] f a1
        obtain v' where "visitMembers fuel C ms ?v1 = Some v'" by auto
        with sc None show ?thesis by (auto simp: handleDefault.simps)
      next
        case (Some t)
        obtain getBody bad body where t: "t = (getBody, bad, body)" by (cases t)
        let ?v2 = "force getBody ?v1"
        have a2: "activeInstanceBodies ?v2 = activeInstanceBodies v"
          using collab_force [of ?v1 getBody] a1 by (simp add: collab_step_def)
        show ?thesis
        proof (cases bad)
          case True
          with sc Some t show ?thesis by (auto simp: handleDefault.simps)
        next
          case nb: False
          from "9.IH"(2) [OF sc refl Some [unfolded t] refl refl refl nb] f a2
          obtain v3 where v3: "handle fuel C body ?v2 = Some v3" by auto
          have "activeInstanceBodies v3 = activeInstanceBodies v"
            using handle_visit_step [OF v3] a2 by (simp add: visit_step_def)
          with "9.IH"(3) [OF sc refl Some [unfolded t] refl refl refl nb v3] f
          obtain v' where "visitMembers fuel C ms v3 = Some v'" by auto
          with sc Some t nb v3 show ?thesis by (auto simp: handleDefault.simps)
        qed
      qed
    qed
  qed
next
  case (10 fuel C v)
  then show ?case by simp
next
  case (11 fuel C m ms v)
  show ?case
  proof
    assume f: "opt_maxInstanceDepth C < fuel + fcard (activeInstanceBodies v)"
    with "11.IH"(1) obtain v1 where v1: "handle fuel C m v = Some v1" by auto
    have "activeInstanceBodies v1 = activeInstanceBodies v"
      using handle_visit_step [OF v1] by (simp add: visit_step_def)
    with "11.IH"(2) [OF v1] f obtain v' where "visitMembers fuel C ms v1 = Some v'" by auto
    with v1 show "\<exists>v'. visitMembers fuel C (m # ms) v = Some v'" by simp
  qed
qed

lemma handle_returns:
  "opt_maxInstanceDepth C < fuel + fcard (activeInstanceBodies v) \<Longrightarrow>
   \<exists>v'. handle fuel C sy v = Some v'"
  using handle_returns_all(1) by blast


subsection \<open>Structural diagnostics\<close>

lemma structural_once_collab:
  "collab_step v v' \<Longrightarrow> structural_once v \<Longrightarrow> structural_once v'"
  by (simp add: collab_step_def structural_once_def)

lemma structural_once_prologue:
  "structural_once v \<Longrightarrow> structural_once (instancePrologue d pc conns info v)"
  using collab_instancePrologue [of v d pc conns info]
  by (simp add: collab_step_def structural_once_def)

lemma structural_once_all:
  "\<forall>v'. handle fuel C sy v = Some v' \<longrightarrow> (structural_once v \<longrightarrow> structural_once v')"
  "\<forall>ok v'. handleDefault fuel C sy v = Some (ok, v') \<longrightarrow> (structural_once v \<longrightarrow> structural_once v')"
  "\<forall>v'. visitMembers fuel C ms v = Some v' \<longrightarrow> (structural_once v \<longrightarrow> structural_once v')"
proof -
  let ?R = "\<lambda>v v'. structural_once v \<longrightarrow> structural_once v'"
  have a: "\<And>v. ?R v v" by simp
  have b: "\<And>a b c. ?R a b \<Longrightarrow> ?R b c \<Longrightarrow> ?R a c" by simp
  have c: "\<And>v v'. collab_step v v' \<Longrightarrow> ?R v v'" using structural_once_collab by blast
  have d: "\<And>v d pc conns info b.
          \<not> shortCircuit v \<Longrightarrow> b |\<in>| activeInstanceBodies (instancePrologue d pc conns info v) \<Longrightarrow>
          ?R v (rejectRecursive d info (instancePrologue d pc conns info v))"
  proof
    fix v d pc conns info b
    assume sc: "\<not> shortCircuit v" and so: "structural_once v"
    have hp: "\<not> hierarchyProblem (instancePrologue d pc conns info v)"
      using sc collab_instancePrologue [of v d pc conns info]
      by (simp add: shortCircuit_def collab_step_def)
    with structural_once_prologue [OF so, of d pc conns info]
    show "structural_once (rejectRecursive d info (instancePrologue d pc conns info v))"
      by (simp add: structural_once_def rejectRecursive_def addDiag_def structuralDiags_def
          isStructural_def)
  qed
  have e: "\<And>C v d pc conns info b v1.
          \<not> shortCircuit v \<Longrightarrow> v1 = instancePrologue d pc conns info v \<Longrightarrow>
          b |\<notin>| activeInstanceBodies v1 \<Longrightarrow>
          ?R v (guard_erase b (rejectDepth C d info
                 (v1\<lparr>activeInstanceBodies := finsert b (activeInstanceBodies v1)\<rparr>)))"
  proof
    fix C v d pc conns info b v1
    assume sc: "\<not> shortCircuit v" and v1: "v1 = instancePrologue d pc conns info v"
      and so: "structural_once v"
    have hp: "\<not> hierarchyProblem v1"
      using sc collab_instancePrologue [of v d pc conns info] v1
      by (simp add: shortCircuit_def collab_step_def)
    with structural_once_prologue [OF so, of d pc conns info] v1
    show "structural_once (guard_erase b (rejectDepth C d info
                 (v1\<lparr>activeInstanceBodies := finsert b (activeInstanceBodies v1)\<rparr>)))"
      by (simp add: structural_once_def rejectDepth_def addDiag_def structuralDiags_def
          isStructural_def guard_erase_def)
  qed
  have f: "\<And>v d pc conns info b v1 w.
          \<not> shortCircuit v \<Longrightarrow> v1 = instancePrologue d pc conns info v \<Longrightarrow>
          b |\<notin>| activeInstanceBodies v1 \<Longrightarrow>
          ?R (v1\<lparr>activeInstanceBodies := finsert b (activeInstanceBodies v1),
                entries := entries v1 @ [Entered d]\<rparr>) w \<Longrightarrow>
          ?R v (guard_erase b w)"
  proof
    fix v d pc conns info b v1 w
    assume v1: "v1 = instancePrologue d pc conns info v" and so: "structural_once v"
      and r: "?R (v1\<lparr>activeInstanceBodies := finsert b (activeInstanceBodies v1),
                entries := entries v1 @ [Entered d]\<rparr>) w"
    from structural_once_prologue [OF so, of d pc conns info] v1
    have "structural_once (v1\<lparr>activeInstanceBodies := finsert b (activeInstanceBodies v1),
                entries := entries v1 @ [Entered d]\<rparr>)"
      by (simp add: structural_once_def)
    with r show "structural_once (guard_erase b w)"
      by (simp add: structural_once_def guard_erase_def)
  qed
  note r = handle_related [of ?R, OF a b c d e f]
  show "\<forall>v'. handle fuel C sy v = Some v' \<longrightarrow> (structural_once v \<longrightarrow> structural_once v')"
    by (rule r(1))
  show "\<forall>ok v'. handleDefault fuel C sy v = Some (ok, v') \<longrightarrow> (structural_once v \<longrightarrow> structural_once v')"
    by (rule r(2))
  show "\<forall>v'. visitMembers fuel C ms v = Some v' \<longrightarrow> (structural_once v \<longrightarrow> structural_once v')"
    by (rule r(3))
qed

subsection \<open>The three ways through the instance handler\<close>

lemma activeInstanceBodies_prologue:
  "activeInstanceBodies (instancePrologue d pc conns info v) = activeInstanceBodies v"
  using visit_step_instancePrologue [of v d pc conns info] by (simp add: visit_step_def)

lemma entries_prologue: "entries (instancePrologue d pc conns info v) = entries v"
  using collab_instancePrologue [of v d pc conns info] by (simp add: collab_step_def)

lemma handle_instance_recursive:
  assumes "\<not> shortCircuit v" "b |\<in>| activeInstanceBodies v"
  shows "handle fuel C (Symbol (InstanceK d b pc conns) info bd sub ms) v =
         Some (rejectRecursive d info (instancePrologue d pc conns info v))"
  supply handle.simps [simp]
  using assms by (simp add: Let_def activeInstanceBodies_prologue)

lemma handle_instance_depth:
  assumes "\<not> shortCircuit v" "b |\<notin>| activeInstanceBodies v"
    "opt_maxInstanceDepth C < fcard (finsert b (activeInstanceBodies v))"
  shows "handle fuel C (Symbol (InstanceK d b pc conns) info bd sub ms) v =
         Some (guard_erase b (rejectDepth C d info
           ((instancePrologue d pc conns info v)
              \<lparr>activeInstanceBodies := finsert b (activeInstanceBodies v)\<rparr>)))"
  supply handle.simps [simp]
  using assms by (simp add: Let_def activeInstanceBodies_prologue)

lemma handle_instance_descend:
  assumes "\<not> shortCircuit v" "b |\<notin>| activeInstanceBodies v"
    "fcard (finsert b (activeInstanceBodies v)) \<le> opt_maxInstanceDepth C"
  shows "handle (Suc n) C (Symbol (InstanceK d b pc conns) info bd sub ms) v =
         map_option (guard_erase b)
           (handle n C (bodies C b)
              ((instancePrologue d pc conns info v)
                 \<lparr>activeInstanceBodies := finsert b (activeInstanceBodies v),
                  entries := entries v @ [Entered d]\<rparr>))"
  supply handle.simps [simp]
  using assms by (simp add: Let_def activeInstanceBodies_prologue entries_prologue)

subsection \<open>Infinite recursion\<close>

text \<open>
  C1: on entering an instance the visitor inserts the body of the instance into
  the set of active bodies and visits the body with it (first part). If the body
  is already active, the handler issues InfinitelyRecursiveHierarchy, at the
  location and with the name of this instance, after the diagnostics of the
  instance's own attributes and connections, it sets the hierarchy problem flag,
  and from then on every handler returns the visitor unchanged: no node issues a
  diagnostic any more (second part). Over a whole traversal the structural
  diagnostics stay at one with the flag set and at none otherwise (third part).
\<close>

theorem infinite_recursion_detected:
  "(\<not> shortCircuit v \<and> b |\<notin>| activeInstanceBodies v \<and>
    fcard (finsert b (activeInstanceBodies v)) \<le> opt_maxInstanceDepth C \<longrightarrow>
      handle (Suc n) C (Symbol (InstanceK d b pc conns) info bd sub ms) v =
        map_option (guard_erase b)
          (handle n C (bodies C b)
             ((instancePrologue d pc conns info v)
                \<lparr>activeInstanceBodies := finsert b (activeInstanceBodies v),
                 entries := entries v @ [Entered d]\<rparr>))) \<and>
   (\<not> shortCircuit v \<and> b |\<in>| activeInstanceBodies v \<longrightarrow>
      (\<exists>v'. handle fuel C (Symbol (InstanceK d b pc conns) info bd sub ms) v = Some v' \<and>
            diags v' = diags (instancePrologue d pc conns info v) @
              [Diagnostic InfinitelyRecursiveHierarchy (sym_location info) [ArgString (sym_name info)]] \<and>
            hierarchyProblem v' \<and>
            (\<forall>fuel' sy. handle fuel' C sy v' = Some v'))) \<and>
   (structural_once v \<and> handle fuel C sy v = Some w \<longrightarrow> structural_once w)"
proof (intro conjI impI)
  assume "\<not> shortCircuit v \<and> b |\<notin>| activeInstanceBodies v \<and>
    fcard (finsert b (activeInstanceBodies v)) \<le> opt_maxInstanceDepth C"
  then show "handle (Suc n) C (Symbol (InstanceK d b pc conns) info bd sub ms) v =
        map_option (guard_erase b)
          (handle n C (bodies C b)
             ((instancePrologue d pc conns info v)
                \<lparr>activeInstanceBodies := finsert b (activeInstanceBodies v),
                 entries := entries v @ [Entered d]\<rparr>))"
    using handle_instance_descend by blast
next
  assume a: "\<not> shortCircuit v \<and> b |\<in>| activeInstanceBodies v"
  let ?v' = "rejectRecursive d info (instancePrologue d pc conns info v)"
  have h: "handle fuel C (Symbol (InstanceK d b pc conns) info bd sub ms) v = Some ?v'"
    using a handle_instance_recursive by blast
  have hp: "hierarchyProblem ?v'" by (simp add: rejectRecursive_def)
  then have "shortCircuit ?v'" by (simp add: shortCircuit_def)
  then have "\<forall>fuel' sy. handle fuel' C sy ?v' = Some ?v'" by (simp add: handle_shortCircuit)
  moreover have "diags ?v' = diags (instancePrologue d pc conns info v) @
      [Diagnostic InfinitelyRecursiveHierarchy (sym_location info) [ArgString (sym_name info)]]"
    by (simp add: rejectRecursive_def addDiag_def)
  ultimately show "\<exists>v'. handle fuel C (Symbol (InstanceK d b pc conns) info bd sub ms) v = Some v' \<and>
            diags v' = diags (instancePrologue d pc conns info v) @
              [Diagnostic InfinitelyRecursiveHierarchy (sym_location info) [ArgString (sym_name info)]] \<and>
            hierarchyProblem v' \<and>
            (\<forall>fuel' sy. handle fuel' C sy v' = Some v')"
    using h hp by blast
next
  assume "structural_once v \<and> handle fuel C sy v = Some w"
  then show "structural_once w" using structural_once_all(1) by blast
qed


text \<open>
  C1 on the module that instantiates itself: inside \<^verbatim>\<open>top\<close> the instance \<^verbatim>\<open>m\<close> is
  rejected with one InfinitelyRecursiveHierarchy after its own two diagnostics,
  and a port visited afterwards adds nothing; the whole traversal from \<^verbatim>\<open>top\<close>
  ends with exactly that one structural diagnostic.
\<close>

lemma rec_m_prologue_diags:
  "diags (instancePrologue 0 (quiet 10) [rec_conn] rec_m_info rec_inside) =
     [Diagnostic (CollaboratorDiag 7) 3 [], Diagnostic (CollaboratorDiag 8) 4 []]"
  by (simp add: instancePrologue_def rec_inside_def newDiagnosticVisitor_def plain_info_def
      rec_m_info_def rec_attr_def rec_conn_def quiet_def force_def addDiag_def)

lemma rec_top_run:
  "handle 1 rec_design rec_top (newDiagnosticVisitor 10) =
     Some ((newDiagnosticVisitor 10)
       \<lparr>numErrors := 2,
        diags := [Diagnostic (CollaboratorDiag 7) 3 [], Diagnostic (CollaboratorDiag 8) 4 [],
                  Diagnostic InfinitelyRecursiveHierarchy 2 [ArgString ''m'']],
        resolved := {10, 11, 12, 13, 20},
        hierarchyProblem := True,
        instanceCount := (\<lambda>d. 0)(0 := 2),
        entries := [Entered 0, Rejected 0]\<rparr>)"
  supply handle.simps [simp]
  by (simp add: rec_top_def rec_design_def rec_body_def rec_m_def rec_m_info_def
      instancePrologue_def newDiagnosticVisitor_def plain_info_def rec_attr_def rec_conn_def
      quiet_def force_def addDiag_def shortCircuit_def rejectRecursive_def guard_erase_def
      handleDefault.simps forceSymbol_def Let_def insert_commute fcard_finsert_if fcard_fempty
      numeral_2_eq_2 [symmetric])

theorem infinite_recursion_detected_witness:
  "(\<exists>v'. handle 0 rec_design rec_m rec_inside = Some v' \<and>
         diags v' = [Diagnostic (CollaboratorDiag 7) 3 [], Diagnostic (CollaboratorDiag 8) 4 [],
                     Diagnostic InfinitelyRecursiveHierarchy 2 [ArgString ''m'']] \<and>
         hierarchyProblem v' \<and> handle 1 rec_design loud_port v' = Some v') \<and>
   (\<exists>w. handle 1 rec_design rec_top (newDiagnosticVisitor 10) = Some w \<and>
        length (structuralDiags (diags w)) = 1)"
proof
  have sc: "\<not> shortCircuit rec_inside \<and> 0 |\<in>| activeInstanceBodies rec_inside"
    by (simp add: shortCircuit_def rec_inside_def newDiagnosticVisitor_def)
  note t = infinite_recursion_detected
         [where v = rec_inside and b = 0 and d = 0 and pc = "quiet 10" and conns = "[rec_conn]"
            and info = rec_m_info and C = rec_design and fuel = 0 and bd = None and sub = None
            and ms = "[]", THEN conjunct2, THEN conjunct1, THEN mp, OF sc, folded rec_m_def]
  have loc: "sym_location rec_m_info = 2" "sym_name rec_m_info = ''m''"
    by (simp_all add: rec_m_info_def plain_info_def)
  from t obtain v' where
    "handle 0 rec_design rec_m rec_inside = Some v'"
    "diags v' = diags (instancePrologue 0 (quiet 10) [rec_conn] rec_m_info rec_inside) @
      [Diagnostic InfinitelyRecursiveHierarchy 2 [ArgString ''m'']]"
    "hierarchyProblem v'" "\<forall>fuel' sy. handle fuel' rec_design sy v' = Some v'"
    unfolding loc by blast
  then show "\<exists>v'. handle 0 rec_design rec_m rec_inside = Some v' \<and>
         diags v' = [Diagnostic (CollaboratorDiag 7) 3 [], Diagnostic (CollaboratorDiag 8) 4 [],
                     Diagnostic InfinitelyRecursiveHierarchy 2 [ArgString ''m'']] \<and>
         hierarchyProblem v' \<and> handle 1 rec_design loud_port v' = Some v'"
    unfolding rec_m_prologue_diags by auto
next
  have so: "structural_once (newDiagnosticVisitor 10)"
    by (simp add: structural_once_def newDiagnosticVisitor_def structuralDiags_def)
  obtain w where w: "handle 1 rec_design rec_top (newDiagnosticVisitor 10) = Some w"
    and hp: "hierarchyProblem w"
    using rec_top_run by simp
  from infinite_recursion_detected
         [where v = "newDiagnosticVisitor 10" and fuel = 1 and C = rec_design and sy = rec_top
            and w = w, THEN conjunct2, THEN conjunct2] so w
  have "structural_once w" by blast
  with hp have "length (structuralDiags (diags w)) = 1" by (simp add: structural_once_def)
  with w show "\<exists>w. handle 1 rec_design rec_top (newDiagnosticVisitor 10) = Some w \<and>
        length (structuralDiags (diags w)) = 1"
    by blast
qed


subsection \<open>The short circuit is sticky\<close>

lemma sticky_step_refl: "sticky_step v v"
  by (simp add: sticky_step_def)

lemma sticky_step_trans:
  assumes "sticky_step a b" "sticky_step b c"
  shows "sticky_step a c"
proof -
  from assms(1) obtain ds1 where
    1: "errorLimit b = errorLimit a" "numErrors a \<le> numErrors b" "diags b = diags a @ ds1"
       "hierarchyProblem b \<longleftrightarrow> hierarchyProblem a \<or> (\<exists>d\<in>set ds1. isStructural d)"
    unfolding sticky_step_def by blast
  from assms(2) obtain ds2 where
    2: "errorLimit c = errorLimit b" "numErrors b \<le> numErrors c" "diags c = diags b @ ds2"
       "hierarchyProblem c \<longleftrightarrow> hierarchyProblem b \<or> (\<exists>d\<in>set ds2. isStructural d)"
    unfolding sticky_step_def by blast
  have "diags c = diags a @ (ds1 @ ds2)" using 1(3) 2(3) by simp
  moreover have "hierarchyProblem c \<longleftrightarrow>
      hierarchyProblem a \<or> (\<exists>d\<in>set (ds1 @ ds2). isStructural d)"
    using 1(4) 2(4) by auto
  ultimately show ?thesis
    unfolding sticky_step_def using 1(1,2) 2(1,2) by (intro conjI exI [of _ "ds1 @ ds2"]) simp_all
qed

lemma collab_sticky_step:
  assumes "collab_step v v'"
  shows "sticky_step v v'"
proof -
  from assms obtain ds where ds: "diags v' = diags v @ ds"
    and st: "structuralDiags (diags v') = structuralDiags (diags v)"
    and rest: "hierarchyProblem v' = hierarchyProblem v" "errorLimit v' = errorLimit v"
      "numErrors v \<le> numErrors v'"
    unfolding collab_step_def by blast
  from st ds have "filter isStructural ds = []" by (simp add: structuralDiags_def)
  then have "\<forall>d\<in>set ds. \<not> isStructural d" by (simp add: filter_empty_conv)
  with ds rest show ?thesis unfolding sticky_step_def by auto
qed

lemma sticky_step_instancePrologue: "sticky_step v (instancePrologue d pc conns info v)"
proof -
  have "sticky_step v (v\<lparr>instanceCount := (instanceCount v)(d := instanceCount v d + 1)\<rparr>)"
    by (simp add: sticky_step_def)
  then show ?thesis
    by (rule sticky_step_trans [OF _ collab_sticky_step [OF collab_instancePrologue]])
qed

lemma sticky_step_recursive:
  "sticky_step v (rejectRecursive d info (instancePrologue d pc conns info v))"
proof -
  have "sticky_step v1 (rejectRecursive d info v1)" for v1
    by (simp add: sticky_step_def rejectRecursive_def addDiag_def isStructural_def)
  then show ?thesis by (rule sticky_step_trans [OF sticky_step_instancePrologue])
qed

lemma sticky_step_depth:
  assumes "v1 = instancePrologue d pc conns info v"
  shows "sticky_step v (guard_erase b (rejectDepth C d info
           (v1\<lparr>activeInstanceBodies := finsert b (activeInstanceBodies v1)\<rparr>)))"
proof -
  have "sticky_step v1 (guard_erase b (rejectDepth C d info
           (v1\<lparr>activeInstanceBodies := finsert b (activeInstanceBodies v1)\<rparr>)))"
    by (simp add: sticky_step_def rejectDepth_def addDiag_def isStructural_def guard_erase_def)
  then show ?thesis
    unfolding assms by (rule sticky_step_trans [OF sticky_step_instancePrologue])
qed

lemma sticky_step_descend:
  assumes "v1 = instancePrologue d pc conns info v"
    and "sticky_step (v1\<lparr>activeInstanceBodies := finsert b (activeInstanceBodies v1),
                       entries := entries v1 @ [Entered d]\<rparr>) w"
  shows "sticky_step v (guard_erase b w)"
proof -
  from assms(2) have "sticky_step v1 (guard_erase b w)"
    by (simp add: sticky_step_def guard_erase_def)
  then show ?thesis
    unfolding assms(1) by (rule sticky_step_trans [OF sticky_step_instancePrologue])
qed

lemma handle_sticky_step_all:
  "\<forall>v'. handle fuel C sy v = Some v' \<longrightarrow> sticky_step v v'"
  "\<forall>ok v'. handleDefault fuel C sy v = Some (ok, v') \<longrightarrow> sticky_step v v'"
  "\<forall>v'. visitMembers fuel C ms v = Some v' \<longrightarrow> sticky_step v v'"
proof -
  have a: "\<And>v. sticky_step v v" by (rule sticky_step_refl)
  have b: "\<And>a b c. sticky_step a b \<Longrightarrow> sticky_step b c \<Longrightarrow> sticky_step a c"
    by (rule sticky_step_trans)
  have c: "\<And>v v'. collab_step v v' \<Longrightarrow> sticky_step v v'" by (rule collab_sticky_step)
  have d: "\<And>v d pc conns info b.
          \<not> shortCircuit v \<Longrightarrow> b |\<in>| activeInstanceBodies (instancePrologue d pc conns info v) \<Longrightarrow>
          sticky_step v (rejectRecursive d info (instancePrologue d pc conns info v))"
    by (rule sticky_step_recursive)
  have e: "\<And>C v d pc conns info b v1.
          \<not> shortCircuit v \<Longrightarrow> v1 = instancePrologue d pc conns info v \<Longrightarrow>
          b |\<notin>| activeInstanceBodies v1 \<Longrightarrow>
          sticky_step v (guard_erase b (rejectDepth C d info
                 (v1\<lparr>activeInstanceBodies := finsert b (activeInstanceBodies v1)\<rparr>)))"
    by (rule sticky_step_depth)
  have f: "\<And>v d pc conns info b v1 w.
          \<not> shortCircuit v \<Longrightarrow> v1 = instancePrologue d pc conns info v \<Longrightarrow>
          b |\<notin>| activeInstanceBodies v1 \<Longrightarrow>
          sticky_step (v1\<lparr>activeInstanceBodies := finsert b (activeInstanceBodies v1),
                entries := entries v1 @ [Entered d]\<rparr>) w \<Longrightarrow>
          sticky_step v (guard_erase b w)"
    by (rule sticky_step_descend)
  note r = handle_related [of sticky_step, OF a b c d e f]
  show "\<forall>v'. handle fuel C sy v = Some v' \<longrightarrow> sticky_step v v'" by (rule r(1))
  show "\<forall>ok v'. handleDefault fuel C sy v = Some (ok, v') \<longrightarrow> sticky_step v v'" by (rule r(2))
  show "\<forall>v'. visitMembers fuel C ms v = Some v' \<longrightarrow> sticky_step v v'" by (rule r(3))
qed

text \<open>
  C2: a handler entered once the hierarchy problem flag is set, or once the count
  of errors exceeds the limit, returns the visitor as it is: no cell is resolved,
  no diagnostic is issued (and \<^verbatim>\<open>handleDefault\<close> returns false). Both conditions are
  sticky, and not only at the entry of a handler: between the entry and the return
  of any handler, and over any list of members visited one after the other, the
  limit is the same, the count of errors has not gone down, the sink has only
  grown, and the flag is set at the end exactly when it was set at the start or
  one of the two structural diagnostics was issued in between. So a flag set
  anywhere inside a handler (it is set only together with such a diagnostic) is
  still set when the handler returns, and a condition that holds at the start holds
  at the end.
\<close>

theorem short_circuit_sticky:
  "(numErrors v > errorLimit v \<or> hierarchyProblem v \<longrightarrow>
      handle fuel C sy v = Some v \<and> handleDefault fuel C sy v = Some (False, v)) \<and>
   (handle fuel C sy v = Some v' \<longrightarrow>
      errorLimit v' = errorLimit v \<and> numErrors v \<le> numErrors v' \<and>
      (\<exists>ds. diags v' = diags v @ ds \<and>
            (hierarchyProblem v' \<longleftrightarrow> hierarchyProblem v \<or> (\<exists>d\<in>set ds. isStructural d))) \<and>
      (hierarchyProblem v \<longrightarrow> hierarchyProblem v') \<and>
      (numErrors v > errorLimit v \<longrightarrow> numErrors v' > errorLimit v')) \<and>
   (visitMembers fuel C ms v = Some v'' \<longrightarrow> sticky_step v v'')"
proof (intro conjI impI)
  assume "numErrors v > errorLimit v \<or> hierarchyProblem v"
  then have sc: "shortCircuit v" by (simp add: shortCircuit_def)
  then show "handle fuel C sy v = Some v" by (rule handle_shortCircuit)
  from sc show "handleDefault fuel C sy v = Some (False, v)" by (rule handleDefault_shortCircuit)
next
  assume "handle fuel C sy v = Some v'"
  then have s: "sticky_step v v'" using handle_sticky_step_all(1) by blast
  from s show "errorLimit v' = errorLimit v" by (simp add: sticky_step_def)
  from s show "numErrors v \<le> numErrors v'" by (simp add: sticky_step_def)
  from s show "\<exists>ds. diags v' = diags v @ ds \<and>
            (hierarchyProblem v' \<longleftrightarrow> hierarchyProblem v \<or> (\<exists>d\<in>set ds. isStructural d))"
    by (simp add: sticky_step_def)
  {
    assume "hierarchyProblem v"
    with s show "hierarchyProblem v'" by (auto simp: sticky_step_def)
  }
  {
    assume "numErrors v > errorLimit v"
    with s show "numErrors v' > errorLimit v'" by (auto simp: sticky_step_def)
  }
next
  assume "visitMembers fuel C ms v = Some v''"
  then show "sticky_step v v''" using handle_sticky_step_all(3) by blast
qed

text \<open>
  C2 on a port whose type would issue an error: with the flag set, and with 11
  errors against a limit of 10, the visitor comes back unchanged. And on the module
  that instantiates itself: the flag is set inside the body of \<^verbatim>\<open>top\<close>, where \<^verbatim>\<open>m\<close> is
  rejected, and it is set when the handler of \<^verbatim>\<open>top\<close> returns, with the structural
  diagnostic among the three issued and two errors counted; a port visited after
  \<^verbatim>\<open>top\<close> in the same list of members changes nothing.
\<close>

theorem short_circuit_sticky_witness:
  "hierarchyProblem stopped \<and> handle 0 rec_design loud_port stopped = Some stopped \<and>
   diags stopped = [] \<and>
   handle 0 rec_design loud_port ((newDiagnosticVisitor 10)\<lparr>numErrors := 11\<rparr>) =
     Some ((newDiagnosticVisitor 10)\<lparr>numErrors := 11\<rparr>) \<and>
   \<not> hierarchyProblem (newDiagnosticVisitor 10) \<and>
   (\<exists>w. handle 1 rec_design rec_top (newDiagnosticVisitor 10) = Some w \<and>
        (\<exists>d\<in>set (diags w). isStructural d) \<and> hierarchyProblem w \<and>
        errorLimit w = 10 \<and> numErrors w = 2 \<and>
        visitMembers 1 rec_design [rec_top, loud_port] (newDiagnosticVisitor 10) = Some w \<and>
        sticky_step (newDiagnosticVisitor 10) w)"
proof -
  have hp: "hierarchyProblem stopped" "diags stopped = []"
    by (simp_all add: stopped_def newDiagnosticVisitor_def)
  have ne: "numErrors ((newDiagnosticVisitor 10)\<lparr>numErrors := 11\<rparr>) >
            errorLimit ((newDiagnosticVisitor 10)\<lparr>numErrors := 11\<rparr>)"
    by (simp add: newDiagnosticVisitor_def)
  from short_circuit_sticky [of stopped 0 rec_design loud_port stopped] hp
  have a: "handle 0 rec_design loud_port stopped = Some stopped" by blast
  from short_circuit_sticky [of "(newDiagnosticVisitor 10)\<lparr>numErrors := 11\<rparr>" 0 rec_design loud_port] ne
  have b: "handle 0 rec_design loud_port ((newDiagnosticVisitor 10)\<lparr>numErrors := 11\<rparr>) =
     Some ((newDiagnosticVisitor 10)\<lparr>numErrors := 11\<rparr>)" by blast
  have n: "\<not> hierarchyProblem (newDiagnosticVisitor 10)" "diags (newDiagnosticVisitor 10) = []"
    "errorLimit (newDiagnosticVisitor 10) = 10"
    by (simp_all add: newDiagnosticVisitor_def)
  obtain w where w: "handle 1 rec_design rec_top (newDiagnosticVisitor 10) = Some w"
    and dw: "diags w = [Diagnostic (CollaboratorDiag 7) 3 [], Diagnostic (CollaboratorDiag 8) 4 [],
                  Diagnostic InfinitelyRecursiveHierarchy 2 [ArgString ''m'']]"
    and nw: "numErrors w = 2"
    using rec_top_run by simp
  from short_circuit_sticky [of "newDiagnosticVisitor 10" 1 rec_design rec_top w, THEN conjunct2,
         THEN conjunct1, THEN mp, OF w]
  obtain ds where el: "errorLimit w = errorLimit (newDiagnosticVisitor 10)"
    and ds: "diags w = diags (newDiagnosticVisitor 10) @ ds"
    and iff: "hierarchyProblem w \<longleftrightarrow>
         hierarchyProblem (newDiagnosticVisitor 10) \<or> (\<exists>d\<in>set ds. isStructural d)"
    by blast
  from ds n(2) have dsw: "ds = diags w" by simp
  have st: "\<exists>d\<in>set (diags w). isStructural d" unfolding dw by (simp add: isStructural_def)
  with iff dsw have hw: "hierarchyProblem w" by simp
  from short_circuit_sticky [of w 1 rec_design loud_port, THEN conjunct1] hw
  have "handle 1 rec_design loud_port w = Some w" by blast
  with w have vm: "visitMembers 1 rec_design [rec_top, loud_port] (newDiagnosticVisitor 10) = Some w"
    by simp
  from short_circuit_sticky [of "newDiagnosticVisitor 10" 1 rec_design rec_top w
         "[rec_top, loud_port]" w, THEN conjunct2, THEN conjunct2, THEN mp, OF vm]
  have "sticky_step (newDiagnosticVisitor 10) w" .
  with w st el n(3) nw hw vm have
    "\<exists>w. handle 1 rec_design rec_top (newDiagnosticVisitor 10) = Some w \<and>
        (\<exists>d\<in>set (diags w). isStructural d) \<and> hierarchyProblem w \<and>
        errorLimit w = 10 \<and> numErrors w = 2 \<and>
        visitMembers 1 rec_design [rec_top, loud_port] (newDiagnosticVisitor 10) = Some w \<and>
        sticky_step (newDiagnosticVisitor 10) w"
    by auto
  with a b hp n(1) show ?thesis by blast
qed

subsection \<open>The set of active bodies\<close>

text \<open>
  C4: the instance handler leaves the set of active instance bodies as it found
  it, on every way out (short circuit, recursion, depth, normal return): when it
  returns, the set is the one of its entry; and it does return as soon as the fuel
  exceeds what the depth check still allows.
\<close>

theorem active_bodies_restored:
  "(handle fuel C (Symbol (InstanceK d b pc conns) info bd sub ms) v = Some v' \<longrightarrow>
      activeInstanceBodies v' = activeInstanceBodies v) \<and>
   (opt_maxInstanceDepth C < fuel + fcard (activeInstanceBodies v) \<longrightarrow>
      (\<exists>w. handle fuel C (Symbol (InstanceK d b pc conns) info bd sub ms) v = Some w \<and>
           activeInstanceBodies w = activeInstanceBodies v))"
proof (intro conjI impI)
  assume "handle fuel C (Symbol (InstanceK d b pc conns) info bd sub ms) v = Some v'"
  then show "activeInstanceBodies v' = activeInstanceBodies v"
    using handle_visit_step by (auto simp: visit_step_def)
next
  assume "opt_maxInstanceDepth C < fuel + fcard (activeInstanceBodies v)"
  then obtain w where w: "handle fuel C (Symbol (InstanceK d b pc conns) info bd sub ms) v = Some w"
    using handle_returns by blast
  then have "activeInstanceBodies w = activeInstanceBodies v"
    using handle_visit_step by (auto simp: visit_step_def)
  with w show "\<exists>w. handle fuel C (Symbol (InstanceK d b pc conns) info bd sub ms) v = Some w \<and>
           activeInstanceBodies w = activeInstanceBodies v"
    by blast
qed

text \<open>
  C4 on the module that instantiates itself, from \<^verbatim>\<open>top\<close> (the set is empty again)
  and from \<^verbatim>\<open>m\<close> inside \<^verbatim>\<open>top\<close> (body 0 stays, as it was).
\<close>

theorem active_bodies_restored_witness:
  "(\<exists>w. handle 129 rec_design rec_top (newDiagnosticVisitor 10) = Some w \<and>
        activeInstanceBodies w = {||}) \<and>
   (\<exists>w. handle 0 rec_design rec_m rec_inside = Some w \<and> activeInstanceBodies w = {|0|})"
proof
  have f: "opt_maxInstanceDepth rec_design < 129 + fcard (activeInstanceBodies (newDiagnosticVisitor 10))"
    by (simp add: rec_design_def)
  have e: "activeInstanceBodies (newDiagnosticVisitor 10) = {||}"
    by (simp add: newDiagnosticVisitor_def)
  from active_bodies_restored
         [where fuel = 129 and C = rec_design and v = "newDiagnosticVisitor 10" and d = 0 and b = 0
            and pc = "quiet 20" and conns = "[]" and info = "plain_info 0 ''top''" and bd = None
            and sub = None and ms = "[]", THEN conjunct2, THEN mp, OF f, folded rec_top_def]
  show "\<exists>w. handle 129 rec_design rec_top (newDiagnosticVisitor 10) = Some w \<and>
        activeInstanceBodies w = {||}"
    unfolding e .
next
  have sc: "\<not> shortCircuit rec_inside" "0 |\<in>| activeInstanceBodies rec_inside"
    by (simp_all add: shortCircuit_def rec_inside_def newDiagnosticVisitor_def)
  have e: "activeInstanceBodies rec_inside = {|0|}"
    by (simp add: rec_inside_def)
  obtain w where w: "handle 0 rec_design rec_m rec_inside = Some w"
    unfolding rec_m_def using handle_instance_recursive [OF sc] by blast
  from active_bodies_restored
         [where fuel = 0 and C = rec_design and v = rec_inside and d = 0 and b = 0
            and pc = "quiet 10" and conns = "[rec_conn]" and info = rec_m_info and bd = None
            and sub = None and ms = "[]" and v' = w, THEN conjunct1, THEN mp, folded rec_m_def, OF w]
  have "activeInstanceBodies w = {|0|}" unfolding e .
  with w show "\<exists>w. handle 0 rec_design rec_m rec_inside = Some w \<and> activeInstanceBodies w = {|0|}"
    by blast
qed


subsection \<open>The instance count\<close>

lemma entries_counted_collab:
  "collab_step v v' \<Longrightarrow> entries_counted v \<Longrightarrow> entries_counted v'"
  by (simp add: collab_step_def entries_counted_def)

lemma instanceCount_prologue:
  "instanceCount (instancePrologue d pc conns info v) =
     (instanceCount v)(d := instanceCount v d + 1)"
  using collab_instancePrologue [of v d pc conns info] by (simp add: collab_step_def)

lemma entries_counted_rejected:
  assumes "entries_counted v"
    and "instanceCount v' = (instanceCount v)(d := instanceCount v d + 1)"
    and "entries v' = entries v @ [Rejected d]"
  shows "entries_counted v'"
  using assms by (simp add: entries_counted_def successfulEntries_def rejectedEntries_def)

lemma entries_counted_entered:
  assumes "entries_counted v"
    and "instanceCount v' = (instanceCount v)(d := instanceCount v d + 1)"
    and "entries v' = entries v @ [Entered d]"
  shows "entries_counted v'"
  using assms by (simp add: entries_counted_def successfulEntries_def rejectedEntries_def)

lemma entries_counted_all:
  "\<forall>v'. handle fuel C sy v = Some v' \<longrightarrow> (entries_counted v \<longrightarrow> entries_counted v')"
  "\<forall>ok v'. handleDefault fuel C sy v = Some (ok, v') \<longrightarrow> (entries_counted v \<longrightarrow> entries_counted v')"
  "\<forall>v'. visitMembers fuel C ms v = Some v' \<longrightarrow> (entries_counted v \<longrightarrow> entries_counted v')"
proof -
  let ?R = "\<lambda>v v'. entries_counted v \<longrightarrow> entries_counted v'"
  have a: "\<And>v. ?R v v" by simp
  have b: "\<And>a b c. ?R a b \<Longrightarrow> ?R b c \<Longrightarrow> ?R a c" by simp
  have c: "\<And>v v'. collab_step v v' \<Longrightarrow> ?R v v'" using entries_counted_collab by blast
  have d: "\<And>v d pc conns info b.
          \<not> shortCircuit v \<Longrightarrow> b |\<in>| activeInstanceBodies (instancePrologue d pc conns info v) \<Longrightarrow>
          ?R v (rejectRecursive d info (instancePrologue d pc conns info v))"
  proof
    fix v d pc conns info b
    assume ec: "entries_counted v"
    show "entries_counted (rejectRecursive d info (instancePrologue d pc conns info v))"
      by (rule entries_counted_rejected [OF ec])
         (simp_all add: rejectRecursive_def addDiag_def instanceCount_prologue entries_prologue)
  qed
  have e: "\<And>C v d pc conns info b v1.
          \<not> shortCircuit v \<Longrightarrow> v1 = instancePrologue d pc conns info v \<Longrightarrow>
          b |\<notin>| activeInstanceBodies v1 \<Longrightarrow>
          ?R v (guard_erase b (rejectDepth C d info
                 (v1\<lparr>activeInstanceBodies := finsert b (activeInstanceBodies v1)\<rparr>)))"
  proof
    fix C v d pc conns info b v1
    assume v1: "v1 = instancePrologue d pc conns info v" and ec: "entries_counted v"
    show "entries_counted (guard_erase b (rejectDepth C d info
                 (v1\<lparr>activeInstanceBodies := finsert b (activeInstanceBodies v1)\<rparr>)))"
      by (rule entries_counted_rejected [OF ec])
         (simp_all add: v1 guard_erase_def rejectDepth_def addDiag_def instanceCount_prologue
            entries_prologue)
  qed
  have f: "\<And>v d pc conns info b v1 w.
          \<not> shortCircuit v \<Longrightarrow> v1 = instancePrologue d pc conns info v \<Longrightarrow>
          b |\<notin>| activeInstanceBodies v1 \<Longrightarrow>
          ?R (v1\<lparr>activeInstanceBodies := finsert b (activeInstanceBodies v1),
                entries := entries v1 @ [Entered d]\<rparr>) w \<Longrightarrow>
          ?R v (guard_erase b w)"
  proof
    fix v d pc conns info b v1 w
    assume v1: "v1 = instancePrologue d pc conns info v" and ec: "entries_counted v"
      and r: "?R (v1\<lparr>activeInstanceBodies := finsert b (activeInstanceBodies v1),
                entries := entries v1 @ [Entered d]\<rparr>) w"
    have "entries_counted (v1\<lparr>activeInstanceBodies := finsert b (activeInstanceBodies v1),
                entries := entries v1 @ [Entered d]\<rparr>)"
      by (rule entries_counted_entered [OF ec])
         (simp_all add: v1 instanceCount_prologue entries_prologue)
    with r show "entries_counted (guard_erase b w)"
      by (simp add: entries_counted_def guard_erase_def)
  qed
  note r = handle_related [of ?R, OF a b c d e f]
  show "\<forall>v'. handle fuel C sy v = Some v' \<longrightarrow> (entries_counted v \<longrightarrow> entries_counted v')"
    by (rule r(1))
  show "\<forall>ok v'. handleDefault fuel C sy v = Some (ok, v') \<longrightarrow> (entries_counted v \<longrightarrow> entries_counted v')"
    by (rule r(2))
  show "\<forall>v'. visitMembers fuel C ms v = Some v' \<longrightarrow> (entries_counted v \<longrightarrow> entries_counted v')"
    by (rule r(3))
qed

text \<open>
  C3, as stated: after the traversal the count of a definition is the number of
  its successful instance entries. For the module that instantiates itself the
  count of \<^verbatim>\<open>M\<close> is 2 and there is one successful entry: the entry of \<^verbatim>\<open>m\<close>, rejected
  for recursion, was counted before the check.
\<close>

theorem instance_count_counterexample:
  "handle 1 rec_design rec_top (newDiagnosticVisitor 10) \<noteq> None \<and>
   instanceCount (the (handle 1 rec_design rec_top (newDiagnosticVisitor 10))) 0 = 2 \<and>
   successfulEntries 0 (entries (the (handle 1 rec_design rec_top (newDiagnosticVisitor 10)))) = 1"
  unfolding rec_top_run by (simp add: successfulEntries_def)

text \<open>
  C3, amended: for every definition, the count is the number of instance entries
  for that definition that passed the short circuit check: its successful entries
  plus its entries rejected for infinite recursion or for exceeding the maximum
  instance depth. If this holds of the visitor a traversal starts from (as of a
  new visitor), it holds when the traversal returns.
\<close>

theorem instance_count_counts_entries:
  "(\<forall>d. instanceCount v d = successfulEntries d (entries v) + rejectedEntries d (entries v)) \<and>
   handle fuel C sy v = Some v' \<longrightarrow>
   (\<forall>d. instanceCount v' d = successfulEntries d (entries v') + rejectedEntries d (entries v'))"
  using entries_counted_all(1) [of fuel C sy v] unfolding entries_counted_def by blast

text \<open>The amended C3 on the module that instantiates itself: 2 = 1 + 1.\<close>

theorem instance_count_counts_entries_witness:
  "\<exists>w. handle 1 rec_design rec_top (newDiagnosticVisitor 10) = Some w \<and>
       instanceCount w 0 = 2 \<and> successfulEntries 0 (entries w) = 1 \<and>
       rejectedEntries 0 (entries w) = 1 \<and>
       instanceCount w 0 = successfulEntries 0 (entries w) + rejectedEntries 0 (entries w)"
proof -
  have i: "\<forall>d. instanceCount (newDiagnosticVisitor 10) d =
      successfulEntries d (entries (newDiagnosticVisitor 10)) +
      rejectedEntries d (entries (newDiagnosticVisitor 10))"
    by (simp add: newDiagnosticVisitor_def successfulEntries_def rejectedEntries_def)
  obtain w where w: "handle 1 rec_design rec_top (newDiagnosticVisitor 10) = Some w"
    and c: "instanceCount w 0 = 2" "successfulEntries 0 (entries w) = 1"
      "rejectedEntries 0 (entries w) = 1"
    unfolding rec_top_run by (simp add: successfulEntries_def rejectedEntries_def)
  from instance_count_counts_entries [of "newDiagnosticVisitor 10" 1 rec_design rec_top w] i w
  have "instanceCount w 0 = successfulEntries 0 (entries w) + rejectedEntries 0 (entries w)"
    by blast
  with w c show ?thesis by blast
qed

subsection \<open>A rejection is not atomic\<close>

lemma resolved_issue: "resolved (issue cs v) = resolved v"
  by (induction cs arbitrary: v) (simp_all add: addDiag_def)

lemma resolved_specialize: "resolved (specialize rs v) = resolved v"
proof (induction rs arbitrary: v)
  case Nil
  show ?case by simp
next
  case (Cons r rs)
  obtain g sp where r: "r = (g, sp)" by (cases r)
  show ?case unfolding r by (simp add: Cons)
qed

lemma resolved_force: "resolved (force l v) = insert (cell l) (resolved v)"
  by (auto simp: force_def resolved_issue resolved_specialize)

lemma resolved_forceAll: "resolved (forceAll ls v) = cell ` set ls \<union> resolved v"
  by (induction ls arbitrary: v) (auto simp: resolved_force)

lemma resolved_forceConns:
  "resolved (forceConns conns v) = (\<Union>conn\<in>set conns. connCells conn) \<union> resolved v"
  by (induction conns arbitrary: v)
     (auto simp: resolved_force resolved_forceAll connCells_def)

lemma resolved_prologue:
  "resolved (instancePrologue d pc conns info v) = prologueCells info pc conns \<union> resolved v"
  by (auto simp: instancePrologue_def prologueCells_def resolved_forceConns resolved_force
      resolved_forceAll)

lemma diags_force_fresh:
  "cell l \<notin> resolved v \<Longrightarrow> emits l = [c] \<Longrightarrow>
   diags (force l v) = diags v @ [Diagnostic (CollaboratorDiag (cd_code c)) (cd_location c) []]"
proof -
  have s: "diags (specialize rs w) = diags w" for rs w
  proof (induction rs arbitrary: w)
    case Nil
    show ?case by simp
  next
    case (Cons r rs)
    obtain g sp where r: "r = (g, sp)" by (cases r)
    show ?case unfolding r by (simp add: Cons)
  qed
  assume "cell l \<notin> resolved v" "emits l = [c]"
  then show ?thesis by (simp add: force_def s addDiag_def)
qed

text \<open>
  C10: when the instance handler rejects an instance, for recursion or for depth,
  the rejection comes after the work at the head of the handler: the handler
  returns with the flag set and one more structural diagnostic, and by then the
  count of the definition has been incremented, the cells of the attributes, of
  the port connections and of each connection's expression, net type check and
  attributes are resolved, and the diagnostics they issued stand in the sink before
  the structural one. In particular an attribute not yet resolved that issues one
  diagnostic has issued it (last part).
\<close>

theorem rejection_not_atomic:
  "(\<not> shortCircuit v \<and>
    (b |\<in>| activeInstanceBodies v \<or>
     opt_maxInstanceDepth C < fcard (finsert b (activeInstanceBodies v))) \<longrightarrow>
    (\<exists>v'. handle fuel C (Symbol (InstanceK d b pc conns) info bd sub ms) v = Some v' \<and>
          hierarchyProblem v' \<and>
          instanceCount v' d = instanceCount v d + 1 \<and>
          successfulEntries d (entries v') = successfulEntries d (entries v) \<and>
          prologueCells info pc conns \<subseteq> resolved v' \<and>
          (\<exists>sd. isStructural sd \<and>
                diags v' = diags (instancePrologue d pc conns info v) @ [sd]))) \<and>
   (attributes info = a # as \<and> cell a \<notin> resolved v \<and> emits a = [c] \<longrightarrow>
      (\<exists>ds. diags (instancePrologue d pc conns info v) =
            diags v @ Diagnostic (CollaboratorDiag (cd_code c)) (cd_location c) [] # ds))"
proof (intro conjI impI)
  assume a: "\<not> shortCircuit v \<and>
    (b |\<in>| activeInstanceBodies v \<or>
     opt_maxInstanceDepth C < fcard (finsert b (activeInstanceBodies v)))"
  let ?v1 = "instancePrologue d pc conns info v"
  let ?goal = "\<lambda>v'. handle fuel C (Symbol (InstanceK d b pc conns) info bd sub ms) v = Some v' \<and>
          hierarchyProblem v' \<and>
          instanceCount v' d = instanceCount v d + 1 \<and>
          successfulEntries d (entries v') = successfulEntries d (entries v) \<and>
          prologueCells info pc conns \<subseteq> resolved v' \<and>
          (\<exists>sd. isStructural sd \<and> diags v' = diags ?v1 @ [sd])"
  show "\<exists>v'. ?goal v'"
  proof (cases "b |\<in>| activeInstanceBodies v")
    case True
    let ?v' = "rejectRecursive d info ?v1"
    have "handle fuel C (Symbol (InstanceK d b pc conns) info bd sub ms) v = Some ?v'"
      using a True handle_instance_recursive by blast
    moreover have "hierarchyProblem ?v'" by (simp add: rejectRecursive_def)
    moreover have "instanceCount ?v' d = instanceCount v d + 1"
      by (simp add: rejectRecursive_def addDiag_def instanceCount_prologue)
    moreover have "successfulEntries d (entries ?v') = successfulEntries d (entries v)"
      by (simp add: rejectRecursive_def addDiag_def entries_prologue successfulEntries_def)
    moreover have "prologueCells info pc conns \<subseteq> resolved ?v'"
      by (simp add: rejectRecursive_def addDiag_def resolved_prologue)
    moreover have "\<exists>sd. isStructural sd \<and> diags ?v' = diags ?v1 @ [sd]"
      by (simp add: rejectRecursive_def addDiag_def isStructural_def)
    ultimately have "?goal ?v'" by blast
    then show ?thesis by blast
  next
    case False
    let ?v' = "guard_erase b (rejectDepth C d info
           (?v1\<lparr>activeInstanceBodies := finsert b (activeInstanceBodies v)\<rparr>))"
    have "handle fuel C (Symbol (InstanceK d b pc conns) info bd sub ms) v = Some ?v'"
      using a False handle_instance_depth by blast
    moreover have "hierarchyProblem ?v'" by (simp add: rejectDepth_def guard_erase_def)
    moreover have "instanceCount ?v' d = instanceCount v d + 1"
      by (simp add: rejectDepth_def guard_erase_def addDiag_def instanceCount_prologue)
    moreover have "successfulEntries d (entries ?v') = successfulEntries d (entries v)"
      by (simp add: rejectDepth_def guard_erase_def addDiag_def entries_prologue
          successfulEntries_def)
    moreover have "prologueCells info pc conns \<subseteq> resolved ?v'"
      by (simp add: rejectDepth_def guard_erase_def addDiag_def resolved_prologue)
    moreover have "\<exists>sd. isStructural sd \<and> diags ?v' = diags ?v1 @ [sd]"
      by (simp add: rejectDepth_def guard_erase_def addDiag_def isStructural_def)
    ultimately have "?goal ?v'" by blast
    then show ?thesis by blast
  qed
next
  assume h: "attributes info = a # as \<and> cell a \<notin> resolved v \<and> emits a = [c]"
  let ?v0 = "v\<lparr>instanceCount := (instanceCount v)(d := instanceCount v d + 1)\<rparr>"
  have pre: "\<exists>ds. diags (forceAll ls w) = diags w @ ds" for ls w
  proof (induction ls arbitrary: w)
    case Nil
    show ?case by simp
  next
    case (Cons l ls)
    have "\<exists>ds. diags (force l w) = diags w @ ds"
    proof -
      have i: "\<exists>ds. diags (issue cs u) = diags u @ ds" for cs u
      proof (induction cs arbitrary: u)
        case Nil
        show ?case by simp
      next
        case (Cons x xs)
        from Cons [of "addDiag (Diagnostic (CollaboratorDiag (cd_code x)) (cd_location x) []) (cd_error x) u"]
        show ?case by (auto simp: addDiag_def)
      qed
      have s: "diags (specialize rs u) = diags u" for rs u
      proof (induction rs arbitrary: u)
        case Nil
        show ?case by simp
      next
        case (Cons r rs)
        obtain g sp where r: "r = (g, sp)" by (cases r)
        show ?case unfolding r by (simp add: Cons)
      qed
      from i [of "emits l" "w\<lparr>resolved := insert (cell l) (resolved w)\<rparr>"]
      show ?thesis by (auto simp: force_def s)
    qed
    with Cons [of "force l w"] show ?case by auto
  qed
  have pf: "\<exists>ds. diags (force l w) = diags w @ ds" for l w
    using pre [of "[l]" w] by simp
  have pc: "\<exists>ds. diags (forceConns cs w) = diags w @ ds" for cs w
  proof (induction cs arbitrary: w)
    case Nil
    show ?case by simp
  next
    case (Cons x xs)
    let ?w1 = "force (getExpression x) w"
    let ?w2 = "force (checkSimulatedNetTypes x) ?w1"
    let ?w3 = "forceAll (conn_attributes x) ?w2"
    from pf [of "getExpression x" w] pf [of "checkSimulatedNetTypes x" ?w1]
      pre [of "conn_attributes x" ?w2] Cons [of ?w3]
    show ?case by auto
  qed
  have d1: "diags (force a ?v0) =
      diags v @ [Diagnostic (CollaboratorDiag (cd_code c)) (cd_location c) []]"
    using diags_force_fresh [of a ?v0 c] h by simp
  let ?w1 = "forceAll as (force a ?v0)"
  let ?w2 = "force pc ?w1"
  from pre [of as "force a ?v0"] pf [of pc ?w1] pc [of conns ?w2] d1
  show "\<exists>ds. diags (instancePrologue d pc conns info v) =
            diags v @ Diagnostic (CollaboratorDiag (cd_code c)) (cd_location c) [] # ds"
    using h by (auto simp: instancePrologue_def)
qed

text \<open>
  C10 on \<^verbatim>\<open>m\<close> inside \<^verbatim>\<open>top\<close>, rejected for recursion: the count of \<^verbatim>\<open>M\<close> went up, the
  cells 10 to 13 are resolved, and the warning of the attribute and the error of the
  connection precede the structural diagnostic.
\<close>

theorem rejection_not_atomic_witness:
  "\<exists>v'. handle 0 rec_design rec_m rec_inside = Some v' \<and>
        hierarchyProblem v' \<and> instanceCount v' 0 = 1 \<and> {10, 11, 12, 13} \<subseteq> resolved v' \<and>
        (\<exists>sd. isStructural sd \<and>
              diags v' = [Diagnostic (CollaboratorDiag 7) 3 [],
                          Diagnostic (CollaboratorDiag 8) 4 [], sd])"
proof -
  have sc: "\<not> shortCircuit rec_inside \<and>
    (0 |\<in>| activeInstanceBodies rec_inside \<or>
     opt_maxInstanceDepth rec_design < fcard (finsert 0 (activeInstanceBodies rec_inside)))"
    by (simp add: shortCircuit_def rec_inside_def newDiagnosticVisitor_def)
  have cells: "prologueCells rec_m_info (quiet 10) [rec_conn] = {10, 11, 12, 13}"
    by (auto simp: prologueCells_def connCells_def rec_m_info_def rec_conn_def rec_attr_def
        quiet_def plain_info_def)
  have cnt: "instanceCount rec_inside 0 = 0"
    by (simp add: rec_inside_def newDiagnosticVisitor_def)
  note t = rejection_not_atomic
         [where v = rec_inside and b = 0 and d = 0 and pc = "quiet 10" and conns = "[rec_conn]"
            and info = rec_m_info and C = rec_design and fuel = 0 and bd = None and sub = None
            and ms = "[]", THEN conjunct1, THEN mp, OF sc, folded rec_m_def]
  then show ?thesis
    unfolding cells cnt rec_m_prologue_diags by auto
qed


subsection \<open>finalize\<close>

lemma collectSpecs_visited: "fst (collectSpecs specs (V, T)) = V \<union> set specs"
  by (induction specs arbitrary: V T) auto

lemma collectSpecs_nothing:
  "snd (collectSpecs specs (V, T)) = [] \<Longrightarrow> set specs \<subseteq> V \<and> T = []"
proof (induction specs arbitrary: V T)
  case Nil
  then show ?case by simp
next
  case (Cons spec specs)
  show ?case
  proof (cases "spec \<in> V")
    case True
    with Cons show ?thesis by simp
  next
    case False
    with Cons.prems have "snd (collectSpecs specs (insert spec V, T @ [spec])) = []" by simp
    from Cons.IH [OF this] show ?thesis by simp
  qed
qed

lemma finalizePass_didSomething:
  "finalizePass fuel C gs (v, V, did) = Some (v', V', did') \<Longrightarrow> did \<Longrightarrow> did'"
proof (induction gs arbitrary: v V did)
  case Nil
  then show ?case by simp
next
  case (Cons g gs)
  obtain V1 T1 where c: "collectSpecs (specializations v g) (V, []) = (V1, T1)"
    by (cases "collectSpecs (specializations v g) (V, [])")
  with Cons.prems obtain v1 where
    "finalizePass fuel C gs (v1, V1, did \<or> T1 \<noteq> []) = Some (v', V', did')"
    by (auto split: option.splits)
  from Cons.IH [OF this] Cons.prems(2) show ?case by simp
qed

lemma finalizePass_nothing:
  "finalizePass fuel C gs (v, V, did) = Some (v', V', False) \<Longrightarrow>
   v' = v \<and> V' = V \<and> (\<forall>g\<in>set gs. set (specializations v g) \<subseteq> V)"
proof (induction gs arbitrary: v V did)
  case Nil
  then show ?case by simp
next
  case (Cons g gs)
  obtain V1 T1 where c: "collectSpecs (specializations v g) (V, []) = (V1, T1)"
    by (cases "collectSpecs (specializations v g) (V, [])")
  with Cons.prems obtain v1 where
    v1: "visitSpecs fuel C T1 v = Some v1" and
    r: "finalizePass fuel C gs (v1, V1, did \<or> T1 \<noteq> []) = Some (v', V', False)"
    by (auto split: option.splits)
  from finalizePass_didSomething [OF r] have t: "T1 = []" by blast
  with v1 have e: "v1 = v" by simp
  from collectSpecs_nothing [of "specializations v g" V "[]"] c t
  have s: "set (specializations v g) \<subseteq> V" by simp
  from collectSpecs_visited [of "specializations v g" V "[]"] c s
  have V1: "V1 = V" by auto
  from Cons.IH [OF r] e V1 s show ?case by simp
qed

lemma finalizeLoop_fixpoint:
  "finalizeLoop passes fuel C (v, V) = Some (v1, V1) \<Longrightarrow>
   \<forall>g\<in>set (genericClasses v1). set (specializations v1 g) \<subseteq> V1"
proof (induction passes arbitrary: v V)
  case 0
  then show ?case by simp
next
  case (Suc passes)
  from Suc.prems obtain v' V' did where
    p: "finalizePass fuel C (genericClasses v) (v, V, False) = Some (v', V', did)"
    by (auto split: option.splits)
  show ?case
  proof (cases did)
    case True
    with Suc.prems p have "finalizeLoop passes fuel C (v', V') = Some (v1, V1)" by simp
    from Suc.IH [OF this] show ?thesis .
  next
    case False
    with Suc.prems p have e: "v1 = v'" "V1 = V'" by simp_all
    from p False have "finalizePass fuel C (genericClasses v) (v, V, False) = Some (v', V', False)"
      by simp
    from finalizePass_nothing [OF this] e show ?thesis by simp
  qed
qed

lemma visitInvalid_nothing:
  "\<forall>g\<in>set gs. specializations v g \<noteq> [] \<Longrightarrow> visitInvalid fuel C gs v = Some v"
  by (induction gs) simp_all

text \<open>
  The fixpoint loop of \<open>finalize\<close> does what it is written for: when it ends, every
  specialization of every collected generic class is among the visited ones,
  although a visit may have created specializations of the same or of other
  classes; and \<open>finalize\<close> returns in just that state when every collected class has
  a specialization by then (the last loop has nothing to visit).
\<close>

lemma finalize_loop_visits_all:
  "(finalizeLoop passes fuel C (v, V) = Some (v1, visitedSpecs) \<longrightarrow>
      (\<forall>g\<in>set (genericClasses v1). set (specializations v1 g) \<subseteq> visitedSpecs)) \<and>
   (finalizeLoop passes fuel C (v, {}) = Some (v1, visitedSpecs) \<and>
    (\<forall>g\<in>set (genericClasses v1). specializations v1 g \<noteq> []) \<longrightarrow>
      finalize passes fuel C v = Some (v1, visitedSpecs))"
proof (intro conjI impI)
  assume "finalizeLoop passes fuel C (v, V) = Some (v1, visitedSpecs)"
  then show "\<forall>g\<in>set (genericClasses v1). set (specializations v1 g) \<subseteq> visitedSpecs"
    by (rule finalizeLoop_fixpoint)
next
  assume a: "finalizeLoop passes fuel C (v, {}) = Some (v1, visitedSpecs) \<and>
    (\<forall>g\<in>set (genericClasses v1). specializations v1 g \<noteq> [])"
  then have "visitInvalid fuel C (genericClasses v1) v1 = Some v1"
    using visitInvalid_nothing by blast
  with a show "finalize passes fuel C v = Some (v1, visitedSpecs)"
    by (simp add: finalize_def)
qed

text \<open>
  The loop where the visit of the specialization 5 of \<^verbatim>\<open>C\<close> creates the
  specialization 6 of \<^verbatim>\<open>D\<close>: it ends after two passes with both visited.
\<close>

lemma gc2_loop:
  "finalizeLoop 2 0 gc_design2 (gc_start2, {}) =
     Some (gc_start2\<lparr>resolved := {50, 51, 52, 60},
                     specializations := (\<lambda>g. [])(0 := [5], 1 := [6])\<rparr>, {5, 6})"
  supply handle.simps [simp]
  by (simp add: numeral_2_eq_2 gc_design2_def gc_start2_def newDiagnosticVisitor_def gc_class_def
      gc_property_def plain_info_def quiet_def handleDefault.simps shortCircuit_def
      forceSymbol_def force_def Let_def insert_commute)

lemma finalize_loop_visits_all_example:
  "\<exists>w. finalizeLoop 2 0 gc_design2 (gc_start2, {}) = Some (w, {5, 6}) \<and>
       genericClasses w = [0, 1] \<and> specializations w 0 = [5] \<and> specializations w 1 = [6] \<and>
       (\<forall>g\<in>set (genericClasses w). set (specializations w g) \<subseteq> {5, 6}) \<and>
       finalize 2 0 gc_design2 gc_start2 = Some (w, {5, 6})"
proof -
  let ?w = "gc_start2\<lparr>resolved := {50, 51, 52, 60},
                     specializations := (\<lambda>g. [])(0 := [5], 1 := [6])\<rparr>"
  have g: "genericClasses ?w = [0, 1]" "specializations ?w 0 = [5]" "specializations ?w 1 = [6]"
    by (simp_all add: gc_start2_def)
  note t = finalize_loop_visits_all [where passes = 2 and fuel = 0 and C = gc_design2
       and v = gc_start2 and V = "{}" and ?v1.0 = ?w and visitedSpecs = "{5, 6}"]
  from t [THEN conjunct1] gc2_loop
  have a: "\<forall>g\<in>set (genericClasses ?w). set (specializations ?w g) \<subseteq> {5, 6}" by blast
  have ne: "\<forall>g\<in>set (genericClasses ?w). specializations ?w g \<noteq> []"
    by (simp add: gc_start2_def)
  from t [THEN conjunct2] gc2_loop ne
  have "finalize 2 0 gc_design2 gc_start2 = Some (?w, {5, 6})" by blast
  with a g gc2_loop show ?thesis by blast
qed

text \<open>
  C9: when \<open>finalize\<close> returns, every specialization of every collected generic
  class has been visited. The last loop of \<open>finalize\<close> breaks this: it runs after the
  fixpoint loop, and a specialization created by its visit of an invalid
  specialization is never visited. For the two collected classes \<^verbatim>\<open>C\<close> and \<^verbatim>\<open>D\<close>
  without a specialization \<open>finalize\<close> returns, and \<^verbatim>\<open>D\<close> (class 1) then has the
  specialization 7, created while the invalid specialization of \<^verbatim>\<open>C\<close> was visited;
  it is not among the visited ones.
\<close>

theorem finalize_leaves_unvisited_specialization:
  "finalize 1 0 gc_design gc_start \<noteq> None \<and>
   1 \<in> set (genericClasses (fst (the (finalize 1 0 gc_design gc_start)))) \<and>
   7 \<in> set (specializations (fst (the (finalize 1 0 gc_design gc_start))) 1) \<and>
   7 \<notin> snd (the (finalize 1 0 gc_design gc_start))"
  supply handle.simps [simp]
  by (simp add: finalize_def gc_design_def gc_start_def newDiagnosticVisitor_def gc_class_def
      gc_property_def plain_info_def quiet_def leaf_def handleDefault.simps shortCircuit_def
      forceSymbol_def force_def Let_def)


section \<open>Properties of DefParamVisitor\<close>

subsection \<open>An induction principle for the traversal\<close>

declare dp_handle.simps [simp del]

lemma dp_related:
  fixes R :: "DefParamVisitor \<Rightarrow> DefParamVisitor \<Rightarrow> bool"
  assumes R_refl: "\<And>p. R p p"
    and R_trans: "\<And>a b c. R a b \<Longrightarrow> R b c \<Longrightarrow> R a c"
    and R_found: "\<And>p x. R p (p\<lparr>found := found p @ [x]\<rparr>)"
    and R_problem: "\<And>p x. R p (p\<lparr>dp_hierarchyProblem := Some x\<rparr>)"
    and R_instance: "\<And>p d q.
          R (dp_enterInstance d p) q \<Longrightarrow>
          R p (dp_leaveInstance d (dp_inserted d p) (inRecursiveInstance p) q)"
    and R_block: "\<And>p q. R (dp_enterBlock p) q \<Longrightarrow> R p (dp_leaveBlock q)"
  shows "\<forall>p'. dp_handle fuel C sy p = Some p' \<longrightarrow> R p p'"
    and "\<forall>p'. dp_visitMembers fuel C ms p = Some p' \<longrightarrow> R p p'"
    and "\<forall>p'. dp_visitArray fuel C ms p = Some p' \<longrightarrow> R p p'"
  supply dp_handle.simps [simp]
proof (induction fuel C sy p and fuel C ms p and fuel C ms p
       rule: dp_handle_dp_visitMembers_dp_visitArray.induct)
  case (1 fuel C info bd sub ms p)
  then show ?case by simp
next
  case (2 fuel C info bd sub ms p)
  then show ?case by simp
next
  case (3 fuel C getTarget getValue info bd sub ms p)
  show ?case by (auto simp: R_refl R_found)
next
  case (4 fuel C d b getPortConnections conns info bd sub ms p)
  show ?case
  proof (intro allI impI)
    fix p'
    assume h: "dp_handle fuel C (Symbol (InstanceK d b getPortConnections conns) info bd sub ms) p = Some p'"
    show "R p p'"
    proof (cases "dp_hierarchyProblem p \<noteq> None \<or> instanceDepth p > maxInstanceDepth p")
      case True
      with h show ?thesis by (auto simp: R_refl R_problem split: if_splits)
    next
      case False
      then have np: "\<not> dp_hierarchyProblem p \<noteq> None" and nd: "\<not> instanceDepth p > maxInstanceDepth p"
        by simp_all
      from h False obtain n where n: "fuel = Suc n" by (cases fuel) auto
      from h False n obtain q where
        q: "dp_visitMembers n C (members_of (bodies C b)) (dp_enterInstance d p) = Some q"
        and p': "p' = dp_leaveInstance d (dp_inserted d p) (inRecursiveInstance p) q"
        by auto
      from "4.IH" [OF np nd n] q have "R (dp_enterInstance d p) q" by blast
      then show ?thesis unfolding p' by (rule R_instance)
    qed
  qed
next
  case (5 fuel C isInstantiated info bd sub ms p)
  show ?case
  proof (intro allI impI)
    fix p'
    assume h: "dp_handle fuel C (Symbol (GenerateBlockK isInstantiated) info bd sub ms) p = Some p'"
    show "R p p'"
    proof (cases "(\<not> isInstantiated \<or> dp_hierarchyProblem p \<noteq> None) \<or>
                  (generateDepth p \<ge> generateLevel p \<and> \<not> inRecursiveInstance p)")
      case True
      with h show ?thesis by (auto simp: R_refl split: if_splits)
    next
      case False
      then have a: "\<not> (\<not> isInstantiated \<or> dp_hierarchyProblem p \<noteq> None)"
        and b: "\<not> (generateDepth p \<ge> generateLevel p \<and> \<not> inRecursiveInstance p)"
        by simp_all
      from h a b obtain q where
        q: "dp_visitMembers fuel C ms (dp_enterBlock p) = Some q" and p': "p' = dp_leaveBlock q"
        by (auto split: if_splits)
      from "5.IH" [OF a b] q have "R (dp_enterBlock p) q" by blast
      then show ?thesis unfolding p' by (rule R_block)
    qed
  qed
next
  case (6 fuel C info bd sub ms p)
  then show ?case by simp
next
  case (7 fuel C getSubroutine interfaceExtern info bd sub ms p)
  show ?case by (simp add: R_refl)
next
  case (8 fuel C pk info bd sub ms p)
  show ?case by (simp add: R_refl)
next
  case (9 fuel C p)
  show ?case by (simp add: R_refl)
next
  case (10 fuel C m ms p)
  then show ?case by (auto split: option.splits intro: R_trans)
next
  case (11 fuel C p)
  show ?case by (simp add: R_refl)
next
  case (12 fuel C m ms p)
  then show ?case by (auto simp: R_refl split: option.splits if_splits intro: R_trans)
qed

subsection \<open>What a handler keeps\<close>

lemma dp_step_all:
  "\<forall>p'. dp_handle fuel C sy p = Some p' \<longrightarrow> dp_step p p'"
  "\<forall>p'. dp_visitMembers fuel C ms p = Some p' \<longrightarrow> dp_step p p'"
  "\<forall>p'. dp_visitArray fuel C ms p = Some p' \<longrightarrow> dp_step p p'"
proof -
  have a: "\<And>p. dp_step p p" by (simp add: dp_step_def)
  have b: "\<And>a b c. dp_step a b \<Longrightarrow> dp_step b c \<Longrightarrow> dp_step a c" by (simp add: dp_step_def)
  have c: "\<And>p x. dp_step p (p\<lparr>found := found p @ [x]\<rparr>)" by (simp add: dp_step_def)
  have d: "\<And>p x. dp_step p (p\<lparr>dp_hierarchyProblem := Some x\<rparr>)" by (simp add: dp_step_def)
  have e: "\<And>p d q.
          dp_step (dp_enterInstance d p) q \<Longrightarrow>
          dp_step p (dp_leaveInstance d (dp_inserted d p) (inRecursiveInstance p) q)"
    by (auto simp: dp_step_def dp_enterInstance_def dp_leaveInstance_def dp_inserted_def Let_def
        split: if_splits)
  have f: "\<And>p q. dp_step (dp_enterBlock p) q \<Longrightarrow> dp_step p (dp_leaveBlock q)"
    by (auto simp: dp_step_def dp_enterBlock_def dp_leaveBlock_def Let_def split: if_splits)
  note r = dp_related [of dp_step, OF a b c d e f]
  show "\<forall>p'. dp_handle fuel C sy p = Some p' \<longrightarrow> dp_step p p'" by (rule r(1))
  show "\<forall>p'. dp_visitMembers fuel C ms p = Some p' \<longrightarrow> dp_step p p'" by (rule r(2))
  show "\<forall>p'. dp_visitArray fuel C ms p = Some p' \<longrightarrow> dp_step p p'" by (rule r(3))
qed

lemma blocks_counted_all:
  "\<forall>p'. dp_handle fuel C sy p = Some p' \<longrightarrow> (blocks_counted p \<longrightarrow> blocks_counted p')"
  "\<forall>p'. dp_visitMembers fuel C ms p = Some p' \<longrightarrow> (blocks_counted p \<longrightarrow> blocks_counted p')"
  "\<forall>p'. dp_visitArray fuel C ms p = Some p' \<longrightarrow> (blocks_counted p \<longrightarrow> blocks_counted p')"
proof -
  let ?R = "\<lambda>p p'. blocks_counted p \<longrightarrow> blocks_counted p'"
  have a: "\<And>p. ?R p p" by simp
  have b: "\<And>a b c. ?R a b \<Longrightarrow> ?R b c \<Longrightarrow> ?R a c" by simp
  have c: "\<And>p x. ?R p (p\<lparr>found := found p @ [x]\<rparr>)" by (simp add: blocks_counted_def)
  have d: "\<And>p x. ?R p (p\<lparr>dp_hierarchyProblem := Some x\<rparr>)" by (simp add: blocks_counted_def)
  have e: "\<And>p d q.
          ?R (dp_enterInstance d p) q \<Longrightarrow>
          ?R p (dp_leaveInstance d (dp_inserted d p) (inRecursiveInstance p) q)"
  proof
    fix p d q
    assume r: "?R (dp_enterInstance d p) q" and bc: "blocks_counted p"
    from bc have "blocks_counted (dp_enterInstance d p)"
      by (simp add: blocks_counted_def dp_enterInstance_def Let_def)
    with r have "blocks_counted q" by blast
    then show "blocks_counted (dp_leaveInstance d (dp_inserted d p) (inRecursiveInstance p) q)"
      by (simp add: blocks_counted_def dp_leaveInstance_def Let_def)
  qed
  have f: "\<And>p q. ?R (dp_enterBlock p) q \<Longrightarrow> ?R p (dp_leaveBlock q)"
  proof
    fix p q
    assume r: "?R (dp_enterBlock p) q" and bc: "blocks_counted p"
    from bc have "blocks_counted (dp_enterBlock p)"
      by (simp add: blocks_counted_def dp_enterBlock_def Let_def)
    with r have "blocks_counted q" by blast
    then show "blocks_counted (dp_leaveBlock q)"
      by (simp add: blocks_counted_def dp_leaveBlock_def)
  qed
  note r = dp_related [of ?R, OF a b c d e f]
  show "\<forall>p'. dp_handle fuel C sy p = Some p' \<longrightarrow> (blocks_counted p \<longrightarrow> blocks_counted p')"
    by (rule r(1))
  show "\<forall>p'. dp_visitMembers fuel C ms p = Some p' \<longrightarrow> (blocks_counted p \<longrightarrow> blocks_counted p')"
    by (rule r(2))
  show "\<forall>p'. dp_visitArray fuel C ms p = Some p' \<longrightarrow> (blocks_counted p \<longrightarrow> blocks_counted p')"
    by (rule r(3))
qed

subsection \<open>Enough fuel\<close>

lemma dp_returns_all:
  "maxInstanceDepth p < fuel + instanceDepth p \<longrightarrow> (\<exists>p'. dp_handle fuel C sy p = Some p')"
  "maxInstanceDepth p < fuel + instanceDepth p \<longrightarrow> (\<exists>p'. dp_visitMembers fuel C ms p = Some p')"
  "maxInstanceDepth p < fuel + instanceDepth p \<longrightarrow> (\<exists>p'. dp_visitArray fuel C ms p = Some p')"
  supply dp_handle.simps [simp]
proof (induction fuel C sy p and fuel C ms p and fuel C ms p
       rule: dp_handle_dp_visitMembers_dp_visitArray.induct)
  case (4 fuel C d b getPortConnections conns info bd sub ms p)
  show ?case
  proof
    assume f: "maxInstanceDepth p < fuel + instanceDepth p"
    show "\<exists>p'. dp_handle fuel C (Symbol (InstanceK d b getPortConnections conns) info bd sub ms) p = Some p'"
    proof (cases "dp_hierarchyProblem p \<noteq> None \<or> instanceDepth p > maxInstanceDepth p")
      case True
      then show ?thesis by auto
    next
      case False
      then have np: "\<not> dp_hierarchyProblem p \<noteq> None" and nd: "\<not> instanceDepth p > maxInstanceDepth p"
        by simp_all
      from f nd obtain n where n: "fuel = Suc n" by (cases fuel) auto
      have "maxInstanceDepth (dp_enterInstance d p) < n + instanceDepth (dp_enterInstance d p)"
        using f n by (simp add: dp_enterInstance_def Let_def)
      with "4.IH" [OF np nd n] obtain q where
        "dp_visitMembers n C (members_of (bodies C b)) (dp_enterInstance d p) = Some q" by blast
      with False n show ?thesis by simp
    qed
  qed
next
  case (5 fuel C isInstantiated info bd sub ms p)
  show ?case
  proof
    assume f: "maxInstanceDepth p < fuel + instanceDepth p"
    show "\<exists>p'. dp_handle fuel C (Symbol (GenerateBlockK isInstantiated) info bd sub ms) p = Some p'"
    proof (cases "(\<not> isInstantiated \<or> dp_hierarchyProblem p \<noteq> None) \<or>
                  (generateDepth p \<ge> generateLevel p \<and> \<not> inRecursiveInstance p)")
      case True
      then show ?thesis by auto
    next
      case False
      then have a: "\<not> (\<not> isInstantiated \<or> dp_hierarchyProblem p \<noteq> None)"
        and b: "\<not> (generateDepth p \<ge> generateLevel p \<and> \<not> inRecursiveInstance p)"
        by simp_all
      have "maxInstanceDepth (dp_enterBlock p) < fuel + instanceDepth (dp_enterBlock p)"
        using f by (simp add: dp_enterBlock_def Let_def)
      with "5.IH" [OF a b] obtain q where
        "dp_visitMembers fuel C ms (dp_enterBlock p) = Some q" by blast
      with a b show ?thesis by auto
    qed
  qed
next
  case (10 fuel C m ms p)
  show ?case
  proof
    assume f: "maxInstanceDepth p < fuel + instanceDepth p"
    with "10.IH"(1) obtain p1 where p1: "dp_handle fuel C m p = Some p1" by blast
    with dp_step_all(1) [of fuel C m p] have "dp_step p p1" by blast
    with f have "maxInstanceDepth p1 < fuel + instanceDepth p1" by (simp add: dp_step_def)
    with "10.IH"(2) [OF p1] obtain p' where "dp_visitMembers fuel C ms p1 = Some p'" by blast
    with p1 show "\<exists>p'. dp_visitMembers fuel C (m # ms) p = Some p'" by simp
  qed
next
  case (12 fuel C m ms p)
  show ?case
  proof
    assume f: "maxInstanceDepth p < fuel + instanceDepth p"
    show "\<exists>p'. dp_visitArray fuel C (m # ms) p = Some p'"
    proof (cases "dp_hierarchyProblem p \<noteq> None")
      case True
      then show ?thesis by simp
    next
      case False
      with "12.IH"(1) f obtain p1 where p1: "dp_handle fuel C m p = Some p1" by blast
      with dp_step_all(1) [of fuel C m p] have "dp_step p p1" by blast
      with f have "maxInstanceDepth p1 < fuel + instanceDepth p1" by (simp add: dp_step_def)
      with "12.IH"(2) [OF False p1] obtain p' where "dp_visitArray fuel C ms p1 = Some p'" by blast
      with p1 False show ?thesis by simp
    qed
  qed
qed simp_all


subsection \<open>Collecting defparams by level\<close>

text \<open>
  C7: the handler of a defparam collects it if and only if the generate depth is
  at most the target level, and changes nothing else (first part). The handler of
  an instantiated generate block does not go into the block when the generate
  depth has reached the level and the visitor is not inside a recursive instance:
  it returns the visitor unchanged, whatever the block contains (second part);
  below the level, or inside a recursive instance, it visits the members one level
  deeper (third part).
\<close>

theorem defparam_collected_at_level:
  "(\<exists>p'. dp_handle fuel C (Symbol (DefParamK getTarget getValue) info bd sub ms) p = Some p' \<and>
         (sym_id info \<in> set (found p') - set (found p) \<longrightarrow> generateDepth p \<le> generateLevel p) \<and>
         (generateDepth p \<le> generateLevel p \<longrightarrow> found p' = found p @ [sym_id info]) \<and>
         (\<not> generateDepth p \<le> generateLevel p \<longrightarrow> found p' = found p) \<and>
         p' = p\<lparr>found := found p'\<rparr>) \<and>
   (generateDepth p \<ge> generateLevel p \<and> \<not> inRecursiveInstance p \<longrightarrow>
      dp_handle fuel C (Symbol (GenerateBlockK True) info bd sub ms) p = Some p) \<and>
   (dp_hierarchyProblem p = None \<and> (generateDepth p < generateLevel p \<or> inRecursiveInstance p) \<longrightarrow>
      dp_handle fuel C (Symbol (GenerateBlockK True) info bd sub ms) p =
        map_option dp_leaveBlock (dp_visitMembers fuel C ms (dp_enterBlock p)) \<and>
      generateDepth (dp_enterBlock p) = generateDepth p + 1)"
  by (auto simp: dp_handle.simps dp_enterBlock_def Let_def)

text \<open>
  C7 at level 0 and generate depth 0, outside a recursive instance: the defparam is
  collected, the generate block \<^verbatim>\<open>h\<close> is not gone into, and so its defparam is not
  collected.
\<close>

theorem defparam_collected_at_level_witness:
  "dp_handle 0 dp_design dp_defparam (newDefParamVisitor 5 0) =
     Some ((newDefParamVisitor 5 0)\<lparr>found := [7]\<rparr>) \<and>
   dp_handle 0 dp_design dp_h (newDefParamVisitor 5 0) = Some (newDefParamVisitor 5 0)"
proof -
  let ?p = "newDefParamVisitor 5 0"
  have g: "generateDepth ?p \<le> generateLevel ?p" "generateLevel ?p \<le> generateDepth ?p"
    "\<not> inRecursiveInstance ?p" "found ?p = []"
    by (simp_all add: newDefParamVisitor_def)
  have i: "sym_id (plain_info 7 ''dp'') = 7" by (simp add: plain_info_def)
  note t = defparam_collected_at_level [where p = ?p and fuel = 0 and C = dp_design]
  from t [where getTarget = "quiet 70" and getValue = "quiet 71" and info = "plain_info 7 ''dp''"
            and bd = None and sub = None and ms = "[]", THEN conjunct1, folded dp_defparam_def]
  obtain p' where "dp_handle 0 dp_design dp_defparam ?p = Some p'"
    "found p' = found ?p @ [7]" "p' = ?p\<lparr>found := found p'\<rparr>"
    using g i by auto
  then have a: "dp_handle 0 dp_design dp_defparam ?p = Some (?p\<lparr>found := [7]\<rparr>)"
    using g by simp
  from t [where info = "plain_info 6 ''h''" and bd = None and sub = None and ms = "[dp_defparam]",
            THEN conjunct2, THEN conjunct1, folded dp_h_def] g
  have "dp_handle 0 dp_design dp_h ?p = Some ?p" by blast
  with a show ?thesis by blast
qed

subsection \<open>The counter of blocks\<close>

lemma dp_top_run:
  "dp_handle 2 dp_design dp_top (newDefParamVisitor 5 1) =
     Some ((newDefParamVisitor 5 1)
       \<lparr>numBlocksSeen := 3,
        visits := [InstanceVisited 0, GenerateBlockVisited 0, InstanceVisited 1,
                   GenerateBlockVisited 1]\<rparr>)"
  by (simp add: numeral_2_eq_2 numeral_3_eq_3 dp_handle.simps dp_top_def dp_design_def dp_m_def
      dp_g_def dp_h_def dp_body0_def dp_body1_def dp_defparam_def newDefParamVisitor_def
      dp_enterInstance_def dp_leaveInstance_def dp_inserted_def dp_enterBlock_def
      dp_leaveBlock_def Let_def)

text \<open>
  C8, as stated: after a traversal the counter is the number of generate blocks
  and instances visited at a generate depth at or below the target level. For the
  recursive module at level 1 the visitor goes into \<^verbatim>\<open>top\<close> and \<^verbatim>\<open>g\<close> at generate depth
  0 and, in the recursive instance \<^verbatim>\<open>m\<close>, into \<^verbatim>\<open>m\<close> and \<^verbatim>\<open>h\<close> at generate depth 1: four
  nodes at or below the level. The counter is 3: the generate block \<^verbatim>\<open>h\<close>, at the
  level itself, is not counted.
\<close>

theorem num_blocks_seen_counterexample:
  "dp_handle 2 dp_design dp_top (newDefParamVisitor 5 1) \<noteq> None \<and>
   numBlocksSeen (the (dp_handle 2 dp_design dp_top (newDefParamVisitor 5 1))) = 3 \<and>
   length (filter (spec_counted_visit 1)
     (visits (the (dp_handle 2 dp_design dp_top (newDefParamVisitor 5 1))))) = 4"
  unfolding dp_top_run by simp

text \<open>
  C8, amended: the counter is the number of instances the visitor went into at a
  generate depth at or below the target level plus the number of generate blocks
  it went into at a generate depth strictly below the level. If this holds of the
  visitor a traversal starts from (as of a new visitor), it holds when the
  traversal returns; and the traversal returns as soon as the fuel exceeds what
  the depth check still allows.
\<close>

theorem num_blocks_seen_counts:
  "(numBlocksSeen p = length (filter (counted_visit (generateLevel p)) (visits p)) \<and>
    dp_handle fuel C sy p = Some p' \<longrightarrow>
      numBlocksSeen p' = length (filter (counted_visit (generateLevel p)) (visits p'))) \<and>
   (maxInstanceDepth p < fuel + instanceDepth p \<longrightarrow> (\<exists>q. dp_handle fuel C sy p = Some q))"
proof (intro conjI impI)
  assume a: "numBlocksSeen p = length (filter (counted_visit (generateLevel p)) (visits p)) \<and>
    dp_handle fuel C sy p = Some p'"
  then have "blocks_counted p'"
    using blocks_counted_all(1) [of fuel C sy p] by (simp add: blocks_counted_def)
  moreover have "generateLevel p' = generateLevel p"
    using a dp_step_all(1) [of fuel C sy p] by (simp add: dp_step_def)
  ultimately show "numBlocksSeen p' = length (filter (counted_visit (generateLevel p)) (visits p'))"
    by (simp add: blocks_counted_def)
next
  assume "maxInstanceDepth p < fuel + instanceDepth p"
  then show "\<exists>q. dp_handle fuel C sy p = Some q" using dp_returns_all(1) by blast
qed

text \<open>
  The amended C8 on the recursive module at level 1: two instances at or below the
  level and one generate block below it.
\<close>

theorem num_blocks_seen_counts_witness:
  "\<exists>q. dp_handle 2 dp_design dp_top (newDefParamVisitor 5 1) = Some q \<and>
       visits q = [InstanceVisited 0, GenerateBlockVisited 0, InstanceVisited 1,
                   GenerateBlockVisited 1] \<and>
       numBlocksSeen q = length (filter (counted_visit 1) (visits q)) \<and> numBlocksSeen q = 3 \<and>
       (\<exists>q'. dp_handle 6 dp_design dp_top (newDefParamVisitor 5 1) = Some q')"
proof -
  let ?p = "newDefParamVisitor 5 1"
  have i: "numBlocksSeen ?p = length (filter (counted_visit (generateLevel ?p)) (visits ?p))"
    "generateLevel ?p = 1" "maxInstanceDepth ?p < 6 + instanceDepth ?p"
    by (simp_all add: newDefParamVisitor_def)
  obtain q where q: "dp_handle 2 dp_design dp_top ?p = Some q"
    and v: "visits q = [InstanceVisited 0, GenerateBlockVisited 0, InstanceVisited 1,
                        GenerateBlockVisited 1]"
    unfolding dp_top_run by simp
  from num_blocks_seen_counts [of ?p 2 dp_design dp_top q, THEN conjunct1] i q
  have n: "numBlocksSeen q = length (filter (counted_visit 1) (visits q))" by simp
  then have "numBlocksSeen q = 3" unfolding v by simp
  moreover from num_blocks_seen_counts [of ?p 6 dp_design dp_top, THEN conjunct2] i
  have "\<exists>q'. dp_handle 6 dp_design dp_top ?p = Some q'" by blast
  ultimately show ?thesis using q v n by blast
qed


end
